theory Spec2Isabelle
  imports Main "HOL-Library.Word" "HOL-Library.Multiset"
begin

section \<open>Data model\<close>

text \<open>
  Go's \<open>[]byte\<close> and \<open>string\<close> are both byte sequences; both are modelled as
  \<open>string\<close> (a list of 8-bit characters). \<open>uint\<close> is taken at its 64-bit width and
  \<open>int64\<close> is a signed 64-bit word; Go's \<open>int\<close> (loop indices, callback arguments) never
  comes near its bounds here and is modelled as \<open>int\<close>.
\<close>

type_synonym bytes = string
type_synonym uint = "64 word"
type_synonym int64 = "64 word"

text \<open>downloader.File: \<open>type File struct { Data []byte; Page uint }\<close>\<close>

record File =
  Data :: bytes
  Page :: uint

text \<open>Errors of the operating system, as far as the code tells them apart (\<open>os.IsExist\<close>).\<close>

datatype os_error = EEXIST | ENOENT | EIO string

text \<open>
  Every error value the packer and the downloader build. \<open>OS e\<close> is an error handed up by
  the operating system, the zip writer or the network; the other constructors are the
  \<open>errors.New\<close> and \<open>fmt.Errorf\<close> calls of the source, with the wrapped cause (\<open>%w\<close>) as
  the last argument.
\<close>

datatype error =
    OS os_error
  | NoFilesToPack
  | MkdirFailed string error
  | AlreadyExists string
  | CreateFileFailed string error
  | CreateEntryFailed string error
  | WriteDataFailed string error
  | NoChaptersToPack
  | BaseDirFailed string error
  | ArchiveChapterFailed string error
  | PageError int64 error

section \<open>Formatting of unsigned numbers\<close>

definition digit_char :: "nat \<Rightarrow> char" where
  "digit_char d = ''0123456789'' ! (d mod 10)"

fun show_nat :: "nat \<Rightarrow> string" where
  "show_nat n = (if n < 10 then [digit_char n] else show_nat (n div 10) @ [digit_char (n mod 10)])"

declare show_nat.simps [simp del]

text \<open>\<open>%0wd\<close>: decimal, padded on the left with zeros to at least \<open>w\<close> characters.\<close>

definition zero_pad :: "nat \<Rightarrow> string \<Rightarrow> string" where
  "zero_pad w s = replicate (w - length s) (CHR ''0'') @ s"

text \<open>\<open>fmt.Sprintf("%03d.jpg", file.Page)\<close>\<close>

definition entry_name :: "uint \<Rightarrow> string" where
  "entry_name p = zero_pad 3 (show_nat (unat p)) @ ''.jpg''"

section \<open>float64\<close>

text \<open>
  A \<open>float64\<close> is a signed dyadic number, an infinity or NaN: \<open>Finite s m e\<close> stands for
  \<open>(-1)^s * m * 2^e\<close>. The values a \<open>float64\<close> can hold are those with \<open>is_float64\<close>.
\<close>

datatype float64 = Finite bool nat int | Inf bool | NaN

fun is_float64 :: "float64 \<Rightarrow> bool" where
  "is_float64 (Finite s m e) = (m < 2 ^ 53 \<and> - 1074 \<le> e \<and> e \<le> 971)"
| "is_float64 _ = True"

text \<open>Whether a finite value is a whole number.\<close>

fun is_integral :: "float64 \<Rightarrow> bool" where
  "is_integral (Finite s m e) = (0 \<le> e \<or> 2 ^ nat (- e) dvd m)"
| "is_integral _ = False"

text \<open>The magnitude, cut to a whole number (rounding towards zero).\<close>

definition trunc_mag :: "nat \<Rightarrow> int \<Rightarrow> nat" where
  "trunc_mag m e = (if 0 \<le> e then m * 2 ^ nat e else m div 2 ^ nat (- e))"

text \<open>Go's \<open>==\<close> on float64: by value, the two zeros are equal, NaN equals nothing.\<close>

fun float_eq :: "float64 \<Rightarrow> float64 \<Rightarrow> bool" where
  "float_eq (Finite s m e) (Finite s' m' e') =
     ((m = 0 \<and> m' = 0) \<or>
      (s = s' \<and> (if e' \<le> e then m * 2 ^ nat (e - e') = m' else m = m' * 2 ^ nat (e' - e))))"
| "float_eq (Inf s) (Inf s') = (s = s')"
| "float_eq _ _ = False"

text \<open>
  The conversion \<open>int64(x)\<close> discards the fraction. For a value that does not fit (and for
  NaN and the infinities) the result depends on the implementation: the parameter
  \<open>overflow\<close> gives it.
\<close>

fun int64_of_float64 :: "(float64 \<Rightarrow> int64) \<Rightarrow> float64 \<Rightarrow> int64" where
  "int64_of_float64 overflow (Finite s m e) =
     (let k = (if s then - int (trunc_mag m e) else int (trunc_mag m e))
      in if - (2 ^ 63) \<le> k \<and> k < 2 ^ 63 then word_of_int k else overflow (Finite s m e))"
| "int64_of_float64 overflow x = overflow x"

fun bitlen :: "nat \<Rightarrow> nat" where
  "bitlen n = (if n = 0 then 0 else Suc (bitlen (n div 2)))"

declare bitlen.simps [simp del]

text \<open>
  Rounding a whole number to 53 significant bits, ties to even: the result \<open>(q, sh)\<close>
  stands for \<open>q * 2^sh\<close>.
\<close>

definition round53 :: "nat \<Rightarrow> nat \<times> nat" where
  "round53 a =
     (if a < 2 ^ 53 then (a, 0)
      else let sh = bitlen a - 53; q = a div 2 ^ sh; r = a mod 2 ^ sh
           in if 2 ^ sh < 2 * r \<or> (2 * r = 2 ^ sh \<and> odd q) then (Suc q, sh) else (q, sh))"

text \<open>The conversion \<open>float64(n)\<close> of an int64.\<close>

definition float64_of_int64 :: "int64 \<Rightarrow> float64" where
  "float64_of_int64 n =
     (case round53 (nat \<bar>sint n\<bar>) of (q, sh) \<Rightarrow> Finite (sint n < 0) q (int sh))"

text \<open>
  \<open>n * 2^e\<close> rounded to the nearest whole number, ties to even: the rounding of
  \<open>strconv\<close> when it cuts the exact decimal expansion of a float.
\<close>

definition round_scaled :: "nat \<Rightarrow> int \<Rightarrow> nat" where
  "round_scaled n e =
     (if 0 \<le> e then n * 2 ^ nat e
      else let d = 2 ^ nat (- e); q = n div d; r = n mod d
           in if d < 2 * r \<or> (2 * r = d \<and> odd q) then Suc q else q)"

text \<open>\<open>fmt.Sprintf("%.<prec>f", x)\<close>\<close>

fun fmt_f :: "nat \<Rightarrow> float64 \<Rightarrow> string" where
  "fmt_f prec (Finite s m e) =
     (let r = round_scaled (m * 10 ^ prec) e
      in (if s then ''-'' else []) @ show_nat (r div 10 ^ prec) @
         (if prec = 0 then [] else ''.'' @ zero_pad prec (show_nat (r mod 10 ^ prec))))"
| "fmt_f prec (Inf s) = (if s then ''-Inf'' else ''+Inf'')"
| "fmt_f prec NaN = ''NaN''"

section \<open>File system and zip writer\<close>

text \<open>
  A file holds either arbitrary bytes or a zip archive, which is the list of its entries
  (name, contents) in the order in which they were created: the order in which
  \<open>zip.Reader.File\<close> lists them.
\<close>

datatype content = Raw bytes | Archive "(string \<times> bytes) list"

record filesystem =
  fs_dirs :: "string set"
  fs_files :: "string \<rightharpoonup> content"

text \<open>
  What the code takes from outside: the lexical path functions of \<open>path/filepath\<close>, and
  the failures the operating system and the zip writer may report. \<open>mkdir_fault d\<close> is the
  error of \<open>os.MkdirAll\<close> for a directory \<open>d\<close> that does not exist yet, \<open>open_fault p\<close> the
  error of creating the free path \<open>p\<close>, \<open>create_fault p i\<close> and \<open>write_fault p i\<close> the errors
  of \<open>zip.Writer.Create\<close> and of \<open>Write\<close> for the \<open>i\<close>-th entry of the container \<open>p\<close>,
  \<open>int64_overflow\<close> what the platform makes of a float64 that does not fit an int64.
\<close>

record os_env =
  path_dir :: "string \<Rightarrow> string"
  path_join :: "string \<Rightarrow> string \<Rightarrow> string"
  mkdir_fault :: "string \<Rightarrow> os_error option"
  open_fault :: "string \<Rightarrow> os_error option"
  create_fault :: "string \<Rightarrow> nat \<Rightarrow> os_error option"
  write_fault :: "string \<Rightarrow> nat \<Rightarrow> os_error option"
  int64_overflow :: "float64 \<Rightarrow> int64"

text \<open>\<open>os.MkdirAll(dir, 0755)\<close>: nothing to do for a directory that exists.\<close>

definition MkdirAll :: "os_env \<Rightarrow> string \<Rightarrow> filesystem \<Rightarrow> os_error + filesystem" where
  "MkdirAll env dir fs =
     (if dir \<in> fs_dirs fs then Inr fs
      else if dir \<in> dom (fs_files fs) then Inl (EIO ''not a directory'')
      else case mkdir_fault env dir of
             Some e \<Rightarrow> Inl e
           | None \<Rightarrow> Inr (fs\<lparr>fs_dirs := insert dir (fs_dirs fs)\<rparr>))"

text \<open>
  \<open>os.OpenFile(filename, os.O_RDWR|os.O_CREATE|os.O_EXCL, 0666)\<close>: fails with \<open>EEXIST\<close>
  on a path that exists, creates an empty file otherwise.
\<close>

definition OpenFile_excl :: "os_env \<Rightarrow> string \<Rightarrow> filesystem \<Rightarrow> os_error + filesystem" where
  "OpenFile_excl env p fs =
     (if p \<in> dom (fs_files fs) \<or> p \<in> fs_dirs fs then Inl EEXIST
      else if path_dir env p \<noteq> ''.'' \<and> path_dir env p \<notin> fs_dirs fs then Inl ENOENT
      else case open_fault env p of
             Some e \<Rightarrow> Inl e
           | None \<Rightarrow> Inr (fs\<lparr>fs_files := (fs_files fs)(p \<mapsto> Archive [])\<rparr>))"

definition IsExist :: "os_error \<Rightarrow> bool" where
  "IsExist e = (e = EEXIST)"

section \<open>packer\<close>

text \<open>\<open>strings.ToLower\<close>, on the ASCII letters (all that the comparison with ".cbz" sees).\<close>

definition ToLower_char :: "char \<Rightarrow> char" where
  "ToLower_char c =
     (case map_of (zip ''ABCDEFGHIJKLMNOPQRSTUVWXYZ'' ''abcdefghijklmnopqrstuvwxyz'') c of
        Some d \<Rightarrow> d | None \<Rightarrow> c)"

definition ToLower :: "string \<Rightarrow> string" where
  "ToLower s = map ToLower_char s"

definition HasSuffix :: "string \<Rightarrow> string \<Rightarrow> bool" where
  "HasSuffix s suf = (length suf \<le> length s \<and> drop (length s - length suf) s = suf)"

text \<open>The first step of ArchiveCBZ: "Ensure the filename has .cbz extension".\<close>

definition cbz_path :: "string \<Rightarrow> string" where
  "cbz_path filename = (if \<not> HasSuffix (ToLower filename) ''.cbz'' then filename @ ''.cbz'' else filename)"

text \<open>
  \<open>type ProgressCallback func(page, progress int)\<close>. A callback acts on the state of its
  caller, of type \<open>'s\<close>; \<open>None\<close> is the nil callback.
\<close>

type_synonym 's ProgressCallback = "(int \<Rightarrow> int \<Rightarrow> 's \<Rightarrow> 's) option"

definition report :: "'s ProgressCallback \<Rightarrow> int \<Rightarrow> int \<Rightarrow> 's \<Rightarrow> 's" where
  "report progress a b st = (case progress of None \<Rightarrow> st | Some g \<Rightarrow> g a b st)"

text \<open>
  The loop \<open>for i, file := range files\<close> of ArchiveCBZ on the container \<open>p\<close>, from index \<open>i\<close>,
  with the entries written so far. A failed \<open>Write\<close> leaves the entry it was writing
  without data. Returns the error, the entries and the caller's state.
\<close>

fun write_entries ::
  "os_env \<Rightarrow> string \<Rightarrow> 's ProgressCallback \<Rightarrow> nat \<Rightarrow> File list \<Rightarrow> (string \<times> bytes) list \<Rightarrow> 's
     \<Rightarrow> error option \<times> (string \<times> bytes) list \<times> 's" where
  "write_entries env p progress i [] es st = (None, es, st)"
| "write_entries env p progress i (file # rest) es st =
     (let filename = entry_name (Page file) in
      case create_fault env p i of
        Some e \<Rightarrow> (Some (CreateEntryFailed filename (OS e)), es, st)
      | None \<Rightarrow>
         (case write_fault env p i of
            Some e \<Rightarrow> (Some (WriteDataFailed filename (OS e)), es @ [(filename, [])], st)
          | None \<Rightarrow>
              write_entries env p progress (Suc i) rest (es @ [(filename, Data file)])
                (report progress 1 (int i) st)))"

text \<open>
  ArchiveCBZ. The deferred \<open>w.Close()\<close> and \<open>buff.Close()\<close> run on every path after the file
  was created and leave the entries written so far in it.
\<close>

definition ArchiveCBZ ::
  "os_env \<Rightarrow> string \<Rightarrow> File list \<Rightarrow> 's ProgressCallback \<Rightarrow> filesystem \<Rightarrow> 's
     \<Rightarrow> error option \<times> filesystem \<times> 's" where
  "ArchiveCBZ env filename0 files progress fs st =
     (if length files = 0 then (Some NoFilesToPack, fs, st)
      else
        let filename = cbz_path filename0;
            dir = path_dir env filename
        in case (if dir \<noteq> ''.'' then MkdirAll env dir fs else Inr fs) of
             Inl e \<Rightarrow> (Some (MkdirFailed dir (OS e)), fs, st)
           | Inr fs1 \<Rightarrow>
              (case OpenFile_excl env filename fs1 of
                 Inl e \<Rightarrow>
                   (if IsExist e then (Some (AlreadyExists filename), fs1, st)
                    else (Some (CreateFileFailed filename (OS e)), fs1, st))
               | Inr fs2 \<Rightarrow>
                   (case write_entries env filename progress 0 files [] st of
                      (err, es, st') \<Rightarrow>
                        (err, fs2\<lparr>fs_files := (fs_files fs2)(filename \<mapsto> Archive es)\<rparr>, st'))))"

text \<open>sanitizeFilename\<close>

definition invalidChars :: "char list" where
  "invalidChars = [CHR ''/'', CHR 0x5C, CHR '':'', CHR ''*'', CHR ''?'', CHR 0x22,
                   CHR ''<'', CHR ''>'', CHR ''|'']"

text \<open>\<open>strings.ReplaceAll(result, char, "_")\<close> for a one-byte \<open>char\<close>\<close>

definition ReplaceAll_char :: "char \<Rightarrow> string \<Rightarrow> string" where
  "ReplaceAll_char ch s = map (\<lambda>c. if c = ch then CHR ''_'' else c) s"

definition TrimRight :: "string \<Rightarrow> char list \<Rightarrow> string" where
  "TrimRight s cutset = rev (dropWhile (\<lambda>c. c \<in> set cutset) (rev s))"

definition sanitizeFilename :: "string \<Rightarrow> string" where
  "sanitizeFilename filename =
     (let result = fold ReplaceAll_char invalidChars filename;
          result = TrimRight result '' .''
      in if length result > 200 then take 200 result else result)"

text \<open>GetCBZFilename; \<open>chapterStr\<close> is its local variable of that name.\<close>

definition chapterStr :: "os_env \<Rightarrow> float64 \<Rightarrow> string" where
  "chapterStr env chapterNumber =
     (if float_eq chapterNumber
           (float64_of_int64 (int64_of_float64 (int64_overflow env) chapterNumber))
      then fmt_f 0 chapterNumber else fmt_f 1 chapterNumber)"

definition GetCBZFilename :: "os_env \<Rightarrow> string \<Rightarrow> float64 \<Rightarrow> string \<Rightarrow> string" where
  "GetCBZFilename env title chapterNumber chapterTitle =
     (let sanitizedTitle = sanitizeFilename title;
          filename = sanitizedTitle @ '' - Chapter '' @ chapterStr env chapterNumber;
          filename = (if chapterTitle \<noteq> [] then filename @ '' - '' @ sanitizeFilename chapterTitle
                      else filename)
      in filename @ ''.cbz'')"

text \<open>
  ArchiveMultipleChapters. \<open>chapters\<close> is the Go map as the list of its entries in the
  order in which \<open>range\<close> visits them (any order, the keys distinct); \<open>titles\<close> and
  \<open>chapterNumbers\<close> are maps, read with Go's zero value for a missing key.
  \<open>chapter_path\<close> is the \<open>fullPath\<close> of a group.
\<close>

definition chapter_path ::
  "os_env \<Rightarrow> string \<Rightarrow> (string \<rightharpoonup> string) \<Rightarrow> (string \<rightharpoonup> float64) \<Rightarrow> string \<Rightarrow> string" where
  "chapter_path env baseDir titles chapterNumbers chapterKey =
     (let title = (case titles chapterKey of Some t \<Rightarrow> t | None \<Rightarrow> []);
          chapterNum = (case chapterNumbers chapterKey of Some n \<Rightarrow> n | None \<Rightarrow> Finite False 0 0);
          filename = GetCBZFilename env title chapterNum []
      in path_join env baseDir filename)"

fun archive_chapters ::
  "os_env \<Rightarrow> string \<Rightarrow> (string \<rightharpoonup> string) \<Rightarrow> (string \<rightharpoonup> float64) \<Rightarrow> 's ProgressCallback
     \<Rightarrow> int \<Rightarrow> (string \<times> File list) list \<Rightarrow> filesystem \<Rightarrow> 's \<Rightarrow> error option \<times> filesystem \<times> 's" where
  "archive_chapters env baseDir titles chapterNumbers progress processedFiles [] fs st = (None, fs, st)"
| "archive_chapters env baseDir titles chapterNumbers progress processedFiles
     ((chapterKey, files) # rest) fs st =
     (if length files = 0
      then archive_chapters env baseDir titles chapterNumbers progress processedFiles rest fs st
      else
        let fullPath = chapter_path env baseDir titles chapterNumbers chapterKey;
            chapterProgress =
              Some (\<lambda>page fileProgress. report progress page (processedFiles + fileProgress))
        in case ArchiveCBZ env fullPath files chapterProgress fs st of
             (Some err, fs', st') \<Rightarrow> (Some (ArchiveChapterFailed chapterKey err), fs', st')
           | (None, fs', st') \<Rightarrow>
               archive_chapters env baseDir titles chapterNumbers progress
                 (processedFiles + int (length files)) rest fs' st')"

definition ArchiveMultipleChapters ::
  "os_env \<Rightarrow> string \<Rightarrow> (string \<times> File list) list \<Rightarrow> (string \<rightharpoonup> string) \<Rightarrow> (string \<rightharpoonup> float64)
     \<Rightarrow> 's ProgressCallback \<Rightarrow> filesystem \<Rightarrow> 's \<Rightarrow> error option \<times> filesystem \<times> 's" where
  "ArchiveMultipleChapters env baseDir chapters titles chapterNumbers progress fs st =
     (if length chapters = 0 then (Some NoChaptersToPack, fs, st)
      else case MkdirAll env baseDir fs of
             Inl e \<Rightarrow> (Some (BaseDirFailed baseDir (OS e)), fs, st)
           | Inr fs1 \<Rightarrow>
               archive_chapters env baseDir titles chapterNumbers progress 0 chapters fs1 st)"

text \<open>The text of an error, as \<open>err.Error()\<close> gives it.\<close>

fun os_error_message :: "os_error \<Rightarrow> string" where
  "os_error_message EEXIST = ''file exists''"
| "os_error_message ENOENT = ''no such file or directory''"
| "os_error_message (EIO s) = s"

definition show_int :: "int \<Rightarrow> string" where
  "show_int k = (if k < 0 then ''-'' @ show_nat (nat (- k)) else show_nat (nat k))"

fun error_message :: "error \<Rightarrow> string" where
  "error_message (OS e) = os_error_message e"
| "error_message NoFilesToPack = ''no files to pack''"
| "error_message (MkdirFailed dir e) = ''failed to create directory '' @ dir @ '': '' @ error_message e"
| "error_message (AlreadyExists filename) = ''file '' @ filename @ '' already exists''"
| "error_message (CreateFileFailed filename e) =
     ''failed to create file '' @ filename @ '': '' @ error_message e"
| "error_message (CreateEntryFailed filename e) =
     ''failed to create entry '' @ filename @ '': '' @ error_message e"
| "error_message (WriteDataFailed filename e) =
     ''failed to write data for '' @ filename @ '': '' @ error_message e"
| "error_message NoChaptersToPack = ''no chapters to pack''"
| "error_message (BaseDirFailed dir e) =
     ''failed to create base directory '' @ dir @ '': '' @ error_message e"
| "error_message (ArchiveChapterFailed k e) = ''failed to archive chapter '' @ k @ '': '' @ error_message e"
| "error_message (PageError n e) = ''page '' @ show_int (sint n) @ '': '' @ error_message e"

text \<open>
  A small environment for concrete runs: no failures, and paths of at most one directory
  level, for which \<open>filepath.Dir\<close> is the part before the last slash (or "." without
  one) and \<open>filepath.Join\<close> puts a slash between its arguments.
\<close>

definition simple_dir :: "string \<Rightarrow> string" where
  "simple_dir p =
     (if CHR ''/'' \<in> set p then rev (tl (dropWhile (\<lambda>c. c \<noteq> CHR ''/'') (rev p))) else ''.'')"

definition quiet_env :: os_env where
  "quiet_env = \<lparr>path_dir = simple_dir, path_join = (\<lambda>a b. a @ ''/'' @ b),
     mkdir_fault = (\<lambda>_. None), open_fault = (\<lambda>_. None),
     create_fault = (\<lambda>_ _. None), write_fault = (\<lambda>_ _. None),
     int64_overflow = (\<lambda>_. - (2 ^ 63))\<rparr>"

definition empty_fs :: filesystem where
  "empty_fs = \<lparr>fs_dirs = {}, fs_files = Map.empty\<rparr>"

text \<open>The entries of the archive at a path (none when the path holds no archive).\<close>

definition listing :: "filesystem \<Rightarrow> string \<Rightarrow> (string \<times> bytes) list" where
  "listing fs p = (case fs_files fs p of Some (Archive es) \<Rightarrow> es | _ \<Rightarrow> [])"

text \<open>A callback that records its calls.\<close>

definition record_call :: "(int \<times> int) list ProgressCallback" where
  "record_call = Some (\<lambda>a b log. log @ [(a, b)])"

text \<open>The three files of the round-trip example, out of page order.\<close>

definition page_files :: "bytes \<Rightarrow> bytes \<Rightarrow> bytes \<Rightarrow> File list" where
  "page_files A B C = [\<lparr>Data = A, Page = 1\<rparr>, \<lparr>Data = B, Page = 3\<rparr>, \<lparr>Data = C, Page = 2\<rparr>]"

text \<open>
  What a container of \<open>n\<close> entries needs to be written at the path \<open>p\<close>: the path is free,
  its directory is there or can be made, and neither the file nor its entries fail.
\<close>

definition can_archive :: "os_env \<Rightarrow> filesystem \<Rightarrow> string \<Rightarrow> nat \<Rightarrow> bool" where
  "can_archive env fs p n =
     (p \<notin> dom (fs_files fs) \<and> p \<notin> fs_dirs fs \<and> path_dir env p \<noteq> p \<and> open_fault env p = None \<and>
      (path_dir env p = ''.'' \<or> path_dir env p \<in> fs_dirs fs \<or>
       (path_dir env p \<notin> dom (fs_files fs) \<and> mkdir_fault env (path_dir env p) = None)) \<and>
      (\<forall>i < n. create_fault env p i = None \<and> write_fault env p i = None))"

text \<open>A file system in which \<open>out\<close> exists, and one in which \<open>out.cbz\<close> does.\<close>

definition fs_with :: "string \<Rightarrow> filesystem" where
  "fs_with p = \<lparr>fs_dirs = {}, fs_files = [p \<mapsto> Raw ''old'']\<rparr>"

text \<open>A string of decimal digits.\<close>

definition is_digits :: "string \<Rightarrow> bool" where
  "is_digits s = (s \<noteq> [] \<and> set s \<subseteq> set ''0123456789'')"

text \<open>Two chapters of one page each, and a target directory in which the container of the
  first is already there.\<close>

definition two_chapters :: "(string \<times> File list) list" where
  "two_chapters = [(''a'', [\<lparr>Data = ''p1'', Page = 1\<rparr>]), (''b'', [\<lparr>Data = ''p2'', Page = 1\<rparr>])]"

definition chapter_titles :: "string \<rightharpoonup> string" where
  "chapter_titles = [''a'' \<mapsto> ''T'', ''b'' \<mapsto> ''T'']"

definition chapter_numbers :: "string \<rightharpoonup> float64" where
  "chapter_numbers = [''a'' \<mapsto> Finite False 1 0, ''b'' \<mapsto> Finite False 2 0]"

definition taken_fs :: filesystem where
  "taken_fs = \<lparr>fs_dirs = {''out''}, fs_files = [''out/T - Chapter 1.cbz'' \<mapsto> Raw ''old'']\<rparr>"

section \<open>downloader\<close>

text \<open>
  grabber.Page and grabber.Chapter. (The record of a page is called \<open>grabber_Page\<close>, its
  fields \<open>Number\<close> and \<open>URL\<close>; the number of a chapter is \<open>chapter_Number\<close>.)
\<close>

record grabber_Page =
  Number :: int64
  URL :: string

record Chapter =
  chapter_Number :: float64
  Title :: string
  Language :: string
  PagesCount :: int64
  Pages :: "grabber_Page list"

text \<open>The conversion \<open>uint(page.Number)\<close> keeps the 64 bits.\<close>

definition uint_of_int64 :: "int64 \<Rightarrow> uint" where
  "uint_of_int64 n = n"

text \<open>
  What the network answers to a GET: \<open>http.Get\<close> fails (transport failure or a status other
  than 200), or it gives a body that \<open>io.ReadAll\<close> fails to read, or a body with its bytes.
\<close>

datatype http_response = GetFailed error | ReadFailed error | Body bytes

text \<open>FetchFile, with the answers of the network to the URLs as a parameter.\<close>

definition FetchFile :: "(string \<Rightarrow> http_response) \<Rightarrow> string \<Rightarrow> uint \<Rightarrow> error + File" where
  "FetchFile http url page =
     (case http url of
        GetFailed err \<Rightarrow> Inl err
      | ReadFailed err \<Rightarrow> Inl err
      | Body data \<Rightarrow> Inr \<lparr>Data = data, Page = page\<rparr>)"

text \<open>
  FetchChapter runs one goroutine for each page, one more that waits for them, and the
  calling goroutine; they share channels and a wait group. The model is an interleaving
  of atomic steps. The control points of the goroutine of a page (line numbers of
  downloader.go):
  \<^item> \<open>G_idle\<close>: not started yet;
  \<^item> \<open>G_fetch\<close>: inside FetchFile (41), the fetch is in flight;
  \<^item> \<open>G_fetched\<close>: FetchFile has returned, before the channel operation (46 or 55);
  \<^item> \<open>G_notify\<close>: the error or the file has been sent, before the call of onprogress (48, 56);
  \<^item> \<open>G_callback\<close>: inside onprogress;
  \<^item> \<open>G_release\<close>: before \<open><-guard\<close> (51, 57);
  \<^item> \<open>G_exit\<close>: before the deferred \<open>wg.Done()\<close> (39);
  \<^item> \<open>G_gone\<close>: finished.
\<close>

datatype gpc = G_idle | G_fetch | G_fetched | G_notify | G_callback | G_release | G_exit | G_gone

text \<open>
  The goroutine of lines 61 to 65: not started, in \<open>wg.Wait()\<close>, before \<open>close(done)\<close>,
  before \<open>close(fileChan)\<close>, finished.
\<close>

datatype wpc = W_idle | W_wait | W_close_done | W_close_fileChan | W_gone

text \<open>
  The caller: at the test of line 24; in the loop of line 35 about to start the goroutine
  of the page with the given index (after the last page: line 61); at the \<open>select\<close> of
  line 72; in the \<open>range\<close> loop of line 86; at line 92; returned with \<open>(files, err)\<close>,
  where the file list \<open>None\<close> is Go's nil slice.
\<close>

datatype mpc = M_start | M_launch nat | M_select | M_drain | M_return
  | M_done "File list option \<times> error option"

text \<open>
  The shared state. \<open>guard\<close> is the number of tokens in the channel of that name
  (capacity 5), \<open>wg\<close> the counter of the wait group, \<open>errChan\<close> the buffer (capacity 1) of
  that channel, \<open>fileChan\<close> the queue of that channel; \<open>done\<close> carries no values and is only
  closed. \<open>files_acc\<close> is the caller's variable \<open>files\<close>. \<open>calls\<close> lists the invocations of
  onprogress, in the order in which they began, with their arguments. \<open>panicked\<close> is set by
  a send on a closed channel or a negative wait-group counter.
\<close>

record state =
  m_pc :: mpc
  g_pc :: "gpc list"
  w_pc :: wpc
  guard :: nat
  wg :: nat
  errChan :: "error option"
  fileChan :: "File list"
  fileChan_closed :: bool
  done_closed :: bool
  files_acc :: "File list"
  downloadErr :: "error option"
  calls :: "(int \<times> int \<times> error option) list"
  panicked :: bool

text \<open>
  The network may answer each goroutine differently: \<open>net idx\<close> is what the goroutine of
  index \<open>idx\<close> gets. \<open>fetch_result\<close> is the pair \<open>file, err\<close> of line 41 for that goroutine.
\<close>

type_synonym network = "nat \<Rightarrow> string \<Rightarrow> http_response"

definition fetch_result :: "network \<Rightarrow> Chapter \<Rightarrow> nat \<Rightarrow> error + File" where
  "fetch_result net chapter idx =
     (let page = Pages chapter ! idx
      in FetchFile (net idx) (URL page) (uint_of_int64 (Number page)))"

definition init :: "Chapter \<Rightarrow> state" where
  "init chapter =
     \<lparr>m_pc = M_start, g_pc = replicate (length (Pages chapter)) G_idle, w_pc = W_idle,
      guard = 0, wg = 0, errChan = None, fileChan = [], fileChan_closed = False,
      done_closed = False, files_acc = [], downloadErr = None, calls = [], panicked = False\<rparr>"

text \<open>
  The arguments of the goroutine's call of onprogress: \<open>onprogress(idx, idx, err)\<close> at
  line 48 and \<open>onprogress(1, idx, nil)\<close> at line 56.
\<close>

definition callback_args :: "network \<Rightarrow> Chapter \<Rightarrow> nat \<Rightarrow> int \<times> int \<times> error option" where
  "callback_args net chapter idx =
     (case fetch_result net chapter idx of
        Inl err \<Rightarrow> (int idx, int idx, Some err)
      | Inr file \<Rightarrow> (1, int idx, None))"

text \<open>
  One step of the goroutine \<open>idx\<close>. The \<open>select\<close> of line 46 sends when the buffer of
  \<open>errChan\<close> is free and takes the \<open>default\<close> branch otherwise, without a call of
  onprogress. The send of line 55 waits while \<open>fileChan\<close> is full.
\<close>

definition go_step :: "network \<Rightarrow> Chapter \<Rightarrow> nat \<Rightarrow> state \<Rightarrow> state option" where
  "go_step net chapter idx s =
     (if length (g_pc s) \<le> idx then None
      else case g_pc s ! idx of
        G_idle \<Rightarrow> None
      | G_fetch \<Rightarrow> Some (s\<lparr>g_pc := (g_pc s)[idx := G_fetched]\<rparr>)
      | G_fetched \<Rightarrow>
          (case fetch_result net chapter idx of
             Inl err \<Rightarrow>
               (case errChan s of
                  None \<Rightarrow> Some (s\<lparr>g_pc := (g_pc s)[idx := G_notify],
                                  errChan := Some (PageError (Number (Pages chapter ! idx)) err)\<rparr>)
                | Some _ \<Rightarrow> Some (s\<lparr>g_pc := (g_pc s)[idx := G_release]\<rparr>))
           | Inr file \<Rightarrow>
               (if fileChan_closed s then Some (s\<lparr>panicked := True\<rparr>)
                else if length (fileChan s) < length (Pages chapter)
                then Some (s\<lparr>g_pc := (g_pc s)[idx := G_notify], fileChan := fileChan s @ [file]\<rparr>)
                else None))
      | G_notify \<Rightarrow>
          Some (s\<lparr>g_pc := (g_pc s)[idx := G_callback],
                  calls := calls s @ [callback_args net chapter idx]\<rparr>)
      | G_callback \<Rightarrow> Some (s\<lparr>g_pc := (g_pc s)[idx := G_release]\<rparr>)
      | G_release \<Rightarrow>
          (if 0 < guard s then Some (s\<lparr>g_pc := (g_pc s)[idx := G_exit], guard := guard s - 1\<rparr>)
           else None)
      | G_exit \<Rightarrow>
          (if 0 < wg s then Some (s\<lparr>g_pc := (g_pc s)[idx := G_gone], wg := wg s - 1\<rparr>)
           else Some (s\<lparr>panicked := True\<rparr>))
      | G_gone \<Rightarrow> None)"

text \<open>One step of the waiting goroutine.\<close>

definition waiter_step :: "state \<Rightarrow> state option" where
  "waiter_step s =
     (case w_pc s of
        W_idle \<Rightarrow> None
      | W_wait \<Rightarrow> (if wg s = 0 then Some (s\<lparr>w_pc := W_close_done\<rparr>) else None)
      | W_close_done \<Rightarrow> Some (s\<lparr>done_closed := True, w_pc := W_close_fileChan\<rparr>)
      | W_close_fileChan \<Rightarrow> Some (s\<lparr>fileChan_closed := True, w_pc := W_gone\<rparr>)
      | W_gone \<Rightarrow> None)"

text \<open>
  One step of the caller outside the \<open>select\<close>. A turn of the loop of line 35 is one
  step: it puts a token into \<open>guard\<close> (and waits while there are 5), adds 1 to the wait
  group and starts the goroutine of the page. After the last page the caller starts the
  waiting goroutine and makes the empty list \<open>files\<close>.
\<close>

definition main_step :: "Chapter \<Rightarrow> state \<Rightarrow> state option" where
  "main_step chapter s =
     (case m_pc s of
        M_start \<Rightarrow>
          (if length (Pages chapter) = 0 then Some (s\<lparr>m_pc := M_done (Some [], None)\<rparr>)
           else Some (s\<lparr>m_pc := M_launch 0\<rparr>))
      | M_launch i \<Rightarrow>
          (if i < length (Pages chapter)
           then (if guard s < 5
                 then Some (s\<lparr>guard := guard s + 1, wg := wg s + 1,
                               g_pc := (g_pc s)[i := G_fetch], m_pc := M_launch (Suc i)\<rparr>)
                 else None)
           else Some (s\<lparr>w_pc := W_wait, files_acc := [], m_pc := M_select\<rparr>))
      | M_select \<Rightarrow> None
      | M_drain \<Rightarrow>
          (case fileChan s of
             file # rest \<Rightarrow> Some (s\<lparr>fileChan := rest, files_acc := files_acc s @ [file]\<rparr>)
           | [] \<Rightarrow> (if fileChan_closed s then Some (s\<lparr>m_pc := M_return\<rparr>) else None))
      | M_return \<Rightarrow>
          (case downloadErr s of
             Some err \<Rightarrow> Some (s\<lparr>m_pc := M_done (None, Some err)\<rparr>)
           | None \<Rightarrow> Some (s\<lparr>m_pc := M_done (Some (sort_key Page (files_acc s)), None)\<rparr>))
      | M_done r \<Rightarrow> None)"

text \<open>
  The three cases of the \<open>select\<close> of line 72, each possible when its channel is ready;
  which of the ready cases runs is not determined. A closed and empty \<open>fileChan\<close> is ready
  and gives nil, which is not appended.
\<close>

definition select_err :: "state \<Rightarrow> state option" where
  "select_err s =
     (if m_pc s \<noteq> M_select then None
      else case errChan s of
             Some err \<Rightarrow> Some (s\<lparr>errChan := None, downloadErr := Some err, m_pc := M_drain\<rparr>)
           | None \<Rightarrow> None)"

definition select_file :: "state \<Rightarrow> state option" where
  "select_file s =
     (if m_pc s \<noteq> M_select then None
      else case fileChan s of
             file # rest \<Rightarrow> Some (s\<lparr>fileChan := rest, files_acc := files_acc s @ [file]\<rparr>)
           | [] \<Rightarrow> (if fileChan_closed s then Some s else None))"

definition select_done :: "state \<Rightarrow> state option" where
  "select_done s =
     (if m_pc s \<noteq> M_select then None
      else if done_closed s then Some (s\<lparr>m_pc := M_drain\<rparr>) else None)"

text \<open>What the scheduler picks; nothing runs after a panic.\<close>

datatype action = MainStep | SelectErr | SelectFile | SelectDone | GoStep nat | WaiterStep

definition step :: "network \<Rightarrow> Chapter \<Rightarrow> action \<Rightarrow> state \<Rightarrow> state option" where
  "step net chapter a s =
     (if panicked s then None
      else case a of
        MainStep \<Rightarrow> main_step chapter s
      | SelectErr \<Rightarrow> select_err s
      | SelectFile \<Rightarrow> select_file s
      | SelectDone \<Rightarrow> select_done s
      | GoStep idx \<Rightarrow> go_step net chapter idx s
      | WaiterStep \<Rightarrow> waiter_step s)"

fun run :: "network \<Rightarrow> Chapter \<Rightarrow> action list \<Rightarrow> state \<Rightarrow> state option" where
  "run net chapter [] s = Some s"
| "run net chapter (a # as) s =
     (case step net chapter a s of None \<Rightarrow> None | Some s' \<Rightarrow> run net chapter as s')"

text \<open>The states FetchChapter can be in: those a schedule leads to.\<close>

definition reachable :: "network \<Rightarrow> Chapter \<Rightarrow> state \<Rightarrow> bool" where
  "reachable net chapter s = (\<exists>acts. run net chapter acts (init chapter) = Some s)"

text \<open>
  What FetchChapter returns under a schedule (\<open>None\<close> for a schedule that is not one of
  the program, or under which it has not returned yet).
\<close>

definition FetchChapter ::
  "network \<Rightarrow> Chapter \<Rightarrow> action list \<Rightarrow> (File list option \<times> error option) option" where
  "FetchChapter net chapter acts =
     (case run net chapter acts (init chapter) of
        None \<Rightarrow> None
      | Some s \<Rightarrow> (case m_pc s of M_done r \<Rightarrow> Some r | _ \<Rightarrow> None))"

text \<open>Counting goroutines by their control point (and index).\<close>

definition gsum :: "(nat \<Rightarrow> gpc \<Rightarrow> 'a::comm_monoid_add) \<Rightarrow> gpc list \<Rightarrow> 'a" where
  "gsum f ps = (\<Sum>i < length ps. f i (ps ! i))"

text \<open>Holding a token of \<open>guard\<close>; with a fetch in flight; inside the callback; started and
  not finished; past the send of line 46 or 55; past the beginning of the callback.\<close>

definition holding :: "gpc \<Rightarrow> bool" where
  "holding pc = (pc \<in> {G_fetch, G_fetched, G_notify, G_callback, G_release})"

definition active :: "gpc \<Rightarrow> bool" where
  "active pc = (pc \<noteq> G_idle \<and> pc \<noteq> G_gone)"

definition past_send :: "gpc \<Rightarrow> bool" where
  "past_send pc = (pc \<in> {G_notify, G_callback, G_release, G_exit, G_gone})"


definition in_flight :: "state \<Rightarrow> nat" where
  "in_flight s = gsum (\<lambda>i pc. if pc = G_fetch then 1 else 0) (g_pc s)"

definition in_callback :: "state \<Rightarrow> nat" where
  "in_callback s = gsum (\<lambda>i pc. if pc = G_callback then 1 else 0) (g_pc s)"

definition slots_held :: "state \<Rightarrow> nat" where
  "slots_held s = gsum (\<lambda>i pc. if holding pc then 1 else 0) (g_pc s)"

text \<open>Whether the fetch of the page with index \<open>idx\<close> succeeds.\<close>

definition fetch_ok :: "network \<Rightarrow> Chapter \<Rightarrow> nat \<Rightarrow> bool" where
  "fetch_ok net chapter idx = (case fetch_result net chapter idx of Inl err \<Rightarrow> False | Inr file \<Rightarrow> True)"

text \<open>The files that were sent to \<open>fileChan\<close> so far.\<close>

definition file_sent :: "network \<Rightarrow> Chapter \<Rightarrow> nat \<Rightarrow> gpc \<Rightarrow> File multiset" where
  "file_sent net chapter idx pc =
     (case fetch_result net chapter idx of
        Inl err \<Rightarrow> {#}
      | Inr file \<Rightarrow> (if past_send pc then {#file#} else {#}))"

definition sent_files :: "network \<Rightarrow> Chapter \<Rightarrow> gpc list \<Rightarrow> File multiset" where
  "sent_files net chapter ps = gsum (file_sent net chapter) ps"

text \<open>
  A chapter of two pages of which the second is answered with an error, and a schedule
  of FetchChapter for it: the caller starts both goroutines, both run to their end, the
  caller starts the waiting goroutine, which closes \<open>done\<close> and \<open>fileChan\<close>; then the
  caller's \<open>select\<close>, with all three channels ready, takes the case given last
  (\<open>SelectDone\<close> or \<open>SelectErr\<close>).
\<close>

definition second_fails :: network where
  "second_fails = (\<lambda>idx url. if url = ''u2'' then GetFailed (OS (EIO ''404'')) else Body ''data'')"


definition all_fine :: network where
  "all_fine = (\<lambda>idx url. Body url)"

definition two_pages :: Chapter where
  "two_pages = \<lparr>chapter_Number = Finite False 1 0, Title = ''t'', Language = ''en'', PagesCount = 2,
     Pages = [\<lparr>Number = 1, URL = ''u1''\<rparr>, \<lparr>Number = 2, URL = ''u2''\<rparr>]\<rparr>"

definition goroutines_first :: "action \<Rightarrow> action list" where
  "goroutines_first sel =
     [MainStep, MainStep, MainStep,
      GoStep 0, GoStep 0, GoStep 0, GoStep 0, GoStep 0, GoStep 0,
      GoStep 1, GoStep 1, GoStep 1, GoStep 1, GoStep 1, GoStep 1,
      MainStep, WaiterStep, WaiterStep, WaiterStep, sel, MainStep, MainStep, MainStep]"

text \<open>The invariant of the control structure: the tokens of \<open>guard\<close> and the counter of the
  wait group count goroutines, the goroutines are started in order, and the waiting
  goroutine closes the channels only when all of them have finished.\<close>

definition active_count :: "state \<Rightarrow> nat" where
  "active_count s = gsum (\<lambda>i pc. if active pc then 1 else 0) (g_pc s)"

definition phase_ok :: "Chapter \<Rightarrow> state \<Rightarrow> bool" where
  "phase_ok chapter s =
     (case m_pc s of
        M_start \<Rightarrow> (\<forall>j < length (Pages chapter). g_pc s ! j = G_idle) \<and> w_pc s = W_idle
      | M_launch i \<Rightarrow>
          0 < length (Pages chapter) \<and> i \<le> length (Pages chapter) \<and>
          (\<forall>j < length (Pages chapter). (g_pc s ! j = G_idle) = (i \<le> j)) \<and> w_pc s = W_idle
      | M_done r \<Rightarrow>
          (length (Pages chapter) = 0 \<and> w_pc s = W_idle) \<or>
          (0 < length (Pages chapter) \<and> (\<forall>j < length (Pages chapter). g_pc s ! j \<noteq> G_idle) \<and>
           w_pc s \<noteq> W_idle)
      | _ \<Rightarrow>
          0 < length (Pages chapter) \<and> (\<forall>j < length (Pages chapter). g_pc s ! j \<noteq> G_idle) \<and>
          w_pc s \<noteq> W_idle)"

definition waiter_ok :: "state \<Rightarrow> bool" where
  "waiter_ok s =
     (case w_pc s of
        W_idle \<Rightarrow> \<not> done_closed s \<and> \<not> fileChan_closed s
      | W_wait \<Rightarrow> \<not> done_closed s \<and> \<not> fileChan_closed s
      | W_close_done \<Rightarrow> wg s = 0 \<and> \<not> done_closed s \<and> \<not> fileChan_closed s
      | W_close_fileChan \<Rightarrow> wg s = 0 \<and> done_closed s \<and> \<not> fileChan_closed s
      | W_gone \<Rightarrow> wg s = 0 \<and> done_closed s \<and> fileChan_closed s)"

definition inv_struct :: "Chapter \<Rightarrow> state \<Rightarrow> bool" where
  "inv_struct chapter s =
     (length (g_pc s) = length (Pages chapter) \<and> \<not> panicked s \<and>
      guard s = slots_held s \<and> guard s \<le> 5 \<and> wg s = active_count s \<and>
      phase_ok chapter s \<and> waiter_ok s)"

text \<open>
  The invariant of the data: every file sent is in \<open>fileChan\<close> or in \<open>files\<close>; an error in
  \<open>errChan\<close> or \<open>downloadErr\<close> comes from a failed fetch; once \<open>fileChan\<close> was found closed
  and empty nothing is left to collect, and what is returned is computed from
  \<open>downloadErr\<close> and \<open>files\<close> as at line 92.
\<close>

definition result_ok :: "Chapter \<Rightarrow> state \<Rightarrow> bool" where
  "result_ok chapter s =
     (case m_pc s of
        M_start \<Rightarrow> files_acc s = [] \<and> downloadErr s = None
      | M_launch i \<Rightarrow> files_acc s = [] \<and> downloadErr s = None
      | M_select \<Rightarrow> downloadErr s = None
      | M_drain \<Rightarrow> True
      | M_return \<Rightarrow> fileChan s = [] \<and> fileChan_closed s
      | M_done r \<Rightarrow>
          (length (Pages chapter) = 0 \<and> r = (Some [], None)) \<or>
          (0 < length (Pages chapter) \<and> fileChan s = [] \<and> fileChan_closed s \<and>
           r = (case downloadErr s of
                  Some err \<Rightarrow> (None, Some err)
                | None \<Rightarrow> (Some (sort_key Page (files_acc s)), None))))"

definition inv_data :: "network \<Rightarrow> Chapter \<Rightarrow> state \<Rightarrow> bool" where
  "inv_data net chapter s =
     (mset (files_acc s) + mset (fileChan s) = sent_files net chapter (g_pc s) \<and>
      (errChan s \<noteq> None \<or> downloadErr s \<noteq> None \<longrightarrow>
         (\<exists>idx < length (Pages chapter). \<not> fetch_ok net chapter idx)) \<and>
      result_ok chapter s)"



text \<open>The file that the goroutine \<open>idx\<close> gets when its fetch succeeds.\<close>

definition fetched :: "network \<Rightarrow> Chapter \<Rightarrow> nat \<Rightarrow> File" where
  "fetched net chapter idx =
     (case fetch_result net chapter idx of
        Inr file \<Rightarrow> file
      | Inl err \<Rightarrow> \<lparr>Data = [], Page = uint_of_int64 (Number (Pages chapter ! idx))\<rparr>)"

text \<open>
  A measure of the work that is left: every step other than the receipt of nil from the
  closed \<open>fileChan\<close> in the \<open>select\<close> makes it smaller.
\<close>

fun g_rank :: "gpc \<Rightarrow> nat" where
  "g_rank G_idle = 7"
| "g_rank G_fetch = 6"
| "g_rank G_fetched = 5"
| "g_rank G_notify = 4"
| "g_rank G_callback = 3"
| "g_rank G_release = 2"
| "g_rank G_exit = 1"
| "g_rank G_gone = 0"

fun w_rank :: "wpc \<Rightarrow> nat" where
  "w_rank W_idle = 4"
| "w_rank W_wait = 3"
| "w_rank W_close_done = 2"
| "w_rank W_close_fileChan = 1"
| "w_rank W_gone = 0"

fun m_rank :: "Chapter \<Rightarrow> mpc \<Rightarrow> nat" where
  "m_rank chapter M_start = length (Pages chapter) + 6"
| "m_rank chapter (M_launch i) = length (Pages chapter) - i + 5"
| "m_rank chapter M_select = 3"
| "m_rank chapter M_drain = 2"
| "m_rank chapter M_return = 1"
| "m_rank chapter (M_done r) = 0"

definition work_left :: "Chapter \<Rightarrow> state \<Rightarrow> nat" where
  "work_left chapter s =
     2 * gsum (\<lambda>i pc. g_rank pc) (g_pc s) + length (fileChan s) + w_rank (w_pc s) +
     m_rank chapter (m_pc s)"

definition returned :: "state \<Rightarrow> bool" where
  "returned s = (case m_pc s of M_done r \<Rightarrow> True | _ \<Rightarrow> False)"

text \<open>
  Schedules for the chapter of two pages: one in which the goroutine of the second page
  runs to its end before that of the first page has started to work; one that stops when
  both goroutines are inside onprogress; one for two failing pages, in which the goroutine
  of the first page sends its error and the other one finds \<open>errChan\<close> full.
\<close>

definition second_page_first :: "action list" where
  "second_page_first =
     [MainStep, MainStep, MainStep,
      GoStep 1, GoStep 1, GoStep 1, GoStep 1, GoStep 1, GoStep 1,
      GoStep 0, GoStep 0, GoStep 0, GoStep 0, GoStep 0, GoStep 0,
      MainStep, SelectFile, WaiterStep, WaiterStep, WaiterStep, SelectFile, SelectDone,
      MainStep, MainStep]"

definition both_in_callback :: "action list" where
  "both_in_callback =
     [MainStep, MainStep, MainStep, GoStep 0, GoStep 0, GoStep 0, GoStep 1, GoStep 1, GoStep 1]"


text \<open>A chapter of six pages, and the schedule in which the caller starts five goroutines.\<close>

definition six_pages :: Chapter where
  "six_pages = \<lparr>chapter_Number = Finite False 1 0, Title = ''t'', Language = ''en'', PagesCount = 6,
     Pages = map (\<lambda>n. \<lparr>Number = of_nat n, URL = ''u''\<rparr>) [1, 2, 3, 4, 5, 6]\<rparr>"

definition five_started :: "action list" where
  "five_started = [MainStep, MainStep, MainStep, MainStep, MainStep, MainStep]"



chapter \<open>Properties\<close>

section \<open>The archive writer\<close>

lemma write_entries_ok:
  "\<forall>j < length files. create_fault env p (i + j) = None \<and> write_fault env p (i + j) = None \<Longrightarrow>
   write_entries env p progress i files es st =
     (None, es @ map (\<lambda>f. (entry_name (Page f), Data f)) files,
      fold (\<lambda>k. report progress 1 (int k)) [i ..< i + length files] st)"
proof (induction files arbitrary: i es st)
  case Nil
  then show ?case by simp
next
  case (Cons f files)
  have h0: "create_fault env p i = None \<and> write_fault env p i = None"
    using Cons.prems by (metis add.right_neutral length_greater_0_conv list.distinct(1))
  have hs: "\<forall>j < length files. create_fault env p (Suc i + j) = None \<and> write_fault env p (Suc i + j) = None"
    using Cons.prems by (metis Suc_less_eq add_Suc_right add_Suc length_Cons)
  have hu: "[i ..< i + length (f # files)] = i # [Suc i ..< Suc i + length files]"
    by (simp add: upt_conv_Cons del: upt_Suc)
  show ?case unfolding hu using h0 Cons.IH[OF hs] by simp
qed

lemma ArchiveCBZ_ok:
  assumes "files \<noteq> []" and "can_archive env fs (cbz_path filename) (length files)"
  shows "ArchiveCBZ env filename files progress fs st =
    (None,
     fs\<lparr>fs_dirs := (if path_dir env (cbz_path filename) = ''.'' then fs_dirs fs
                     else insert (path_dir env (cbz_path filename)) (fs_dirs fs)),
        fs_files := (fs_files fs)(cbz_path filename \<mapsto>
                       Archive (map (\<lambda>f. (entry_name (Page f), Data f)) files))\<rparr>,
     fold (\<lambda>k. report progress 1 (int k)) [0 ..< length files] st)"
proof -
  let ?p = "cbz_path filename"
  have w: "write_entries env ?p progress 0 files [] st =
     (None, map (\<lambda>f. (entry_name (Page f), Data f)) files,
      fold (\<lambda>k. report progress 1 (int k)) [0 ..< length files] st)"
    using write_entries_ok[of files env ?p 0 progress "[]" st] assms(2)
    by (simp add: can_archive_def)
  show ?thesis
    using assms w
    by (auto simp: ArchiveCBZ_def can_archive_def MkdirAll_def OpenFile_excl_def Let_def
          insert_absorb split: option.splits)
qed

text \<open>
  C8. ArchiveCBZ with an empty file collection fails with the "no files to pack" error,
  whatever the destination path, the environment and the file system are, and leaves the
  file system (and the caller's progress state) as it was: no container is created.
\<close>

theorem ArchiveCBZ_empty:
  "ArchiveCBZ env filename [] progress fs st = (Some NoFilesToPack, fs, st)
   \<and> error_message NoFilesToPack = ''no files to pack''"
  by (simp add: ArchiveCBZ_def)

text \<open>
  C7, as the code has it. ArchiveCBZ first appends ".cbz" to a destination that lacks it
  and tests that path: for a non-empty file list, when the destination with its extension
  exists (in a directory that is there), ArchiveCBZ fails with "file ... already exists"
  and the file system, the existing file with it, is unchanged.
\<close>

theorem ArchiveCBZ_exists:
  assumes "files \<noteq> []"
    and "cbz_path filename \<in> dom (fs_files fs)"
    and "path_dir env (cbz_path filename) = ''.'' \<or> path_dir env (cbz_path filename) \<in> fs_dirs fs"
  shows "ArchiveCBZ env filename files progress fs st = (Some (AlreadyExists (cbz_path filename)), fs, st)"
  using assms by (auto simp: ArchiveCBZ_def MkdirAll_def OpenFile_excl_def IsExist_def Let_def)

theorem ArchiveCBZ_exists_witness:
  "[\<lparr>Data = ''A'', Page = 1\<rparr>] \<noteq> []
   \<and> cbz_path ''out.cbz'' \<in> dom (fs_files (fs_with ''out.cbz''))
   \<and> path_dir quiet_env (cbz_path ''out.cbz'') = ''.''
   \<and> ArchiveCBZ quiet_env ''out.cbz'' [\<lparr>Data = ''A'', Page = 1\<rparr>] None (fs_with ''out.cbz'') ()
       = (Some (AlreadyExists ''out.cbz''), fs_with ''out.cbz'', ())"
proof -
  have p: "cbz_path ''out.cbz'' = ''out.cbz''"
    by (simp add: cbz_path_def HasSuffix_def ToLower_def ToLower_char_def)
  have d: "path_dir quiet_env ''out.cbz'' = ''.''"
    by (simp add: quiet_env_def simple_dir_def)
  have e: "''out.cbz'' \<in> dom (fs_files (fs_with ''out.cbz''))"
    by (simp add: fs_with_def)
  show ?thesis
    using ArchiveCBZ_exists[of "[\<lparr>Data = ''A'', Page = 1\<rparr>]" "''out.cbz''" "fs_with ''out.cbz''" quiet_env None "()"]
      p d e by simp
qed

text \<open>
  The claim as stated fails for a destination without the extension: with a file \<open>out\<close>
  in place, \<open>ArchiveCBZ("out", ...)\<close> succeeds and writes \<open>out.cbz\<close> beside it.
\<close>

theorem ArchiveCBZ_exists_counterexample:
  "''out'' \<in> dom (fs_files (fs_with ''out''))
   \<and> ArchiveCBZ quiet_env ''out'' [\<lparr>Data = ''A'', Page = 1\<rparr>] None (fs_with ''out'') ()
       = (None,
          \<lparr>fs_dirs = {}, fs_files = [''out'' \<mapsto> Raw ''old'', ''out.cbz'' \<mapsto> Archive [(''001.jpg'', ''A'')]]\<rparr>,
          ())"
  by (simp add: fs_with_def ArchiveCBZ_def cbz_path_def HasSuffix_def ToLower_def ToLower_char_def
      quiet_env_def simple_dir_def OpenFile_excl_def entry_name_def zero_pad_def show_nat.simps
      digit_char_def numeral_2_eq_2)

text \<open>
  C5, as the code has it. ArchiveCBZ writes the entries in the order in which the files
  are supplied and does not sort them: for the files of pages 1, 3, 2 with the data A, B,
  C the container lists \<open>001.jpg\<close>, \<open>003.jpg\<close>, \<open>002.jpg\<close> with the contents A, B, C.
  Each name comes from the page number of its file, not from its position, so the entry
  \<open>001.jpg\<close> holds A, \<open>002.jpg\<close> holds C and \<open>003.jpg\<close> holds B.
\<close>

theorem ArchiveCBZ_out_of_order:
  assumes "can_archive env fs (cbz_path filename) 3"
  shows "fst (ArchiveCBZ env filename (page_files A B C) progress fs st) = None
    \<and> listing (fst (snd (ArchiveCBZ env filename (page_files A B C) progress fs st))) (cbz_path filename)
        = [(''001.jpg'', A), (''003.jpg'', B), (''002.jpg'', C)]
    \<and> map_of (listing (fst (snd (ArchiveCBZ env filename (page_files A B C) progress fs st)))
         (cbz_path filename)) ''001.jpg'' = Some A
    \<and> map_of (listing (fst (snd (ArchiveCBZ env filename (page_files A B C) progress fs st)))
         (cbz_path filename)) ''002.jpg'' = Some C
    \<and> map_of (listing (fst (snd (ArchiveCBZ env filename (page_files A B C) progress fs st)))
         (cbz_path filename)) ''003.jpg'' = Some B"
proof -
  have n1: "entry_name 1 = ''001.jpg''" by code_simp
  have n2: "entry_name 2 = ''002.jpg''" by code_simp
  have n3: "entry_name 3 = ''003.jpg''" by code_simp
  note n = n1 n2 n3
  have l: "length (page_files A B C) = 3" "page_files A B C \<noteq> []"
    by (simp_all add: page_files_def)
  show ?thesis
    using ArchiveCBZ_ok[of "page_files A B C" env fs filename progress st] assms l
    by (simp add: listing_def n) (simp add: page_files_def n)
qed

theorem ArchiveCBZ_out_of_order_witness:
  "can_archive quiet_env empty_fs (cbz_path ''ch'') 3
   \<and> cbz_path ''ch'' = ''ch.cbz''
   \<and> fst (ArchiveCBZ quiet_env ''ch'' (page_files ''A'' ''B'' ''C'') None empty_fs ()) = None
   \<and> listing (fst (snd (ArchiveCBZ quiet_env ''ch'' (page_files ''A'' ''B'' ''C'') None empty_fs ()))) ''ch.cbz''
        = [(''001.jpg'', ''A''), (''003.jpg'', ''B''), (''002.jpg'', ''C'')]"
proof -
  have p: "cbz_path ''ch'' = ''ch.cbz''"
    by (simp add: cbz_path_def HasSuffix_def ToLower_def ToLower_char_def)
  have c: "can_archive quiet_env empty_fs ''ch.cbz'' 3"
    by (simp add: can_archive_def quiet_env_def empty_fs_def simple_dir_def)
  show ?thesis
    using ArchiveCBZ_out_of_order[of quiet_env empty_fs "''ch''" "''A''" "''B''" "''C''" None "()"] p c
    by simp
qed

text \<open>
  The listing order claimed (001, 002, 003) is not the order of the container.
\<close>

theorem ArchiveCBZ_listing_counterexample:
  "listing (fst (snd (ArchiveCBZ quiet_env ''ch.cbz'' (page_files ''A'' ''B'' ''C'') None empty_fs ()))) ''ch.cbz''
     = [(''001.jpg'', ''A''), (''003.jpg'', ''B''), (''002.jpg'', ''C'')]
   \<and> map fst (listing (fst (snd (ArchiveCBZ quiet_env ''ch.cbz'' (page_files ''A'' ''B'' ''C'') None empty_fs ())))
        ''ch.cbz'') \<noteq> [''001.jpg'', ''002.jpg'', ''003.jpg'']"
  by code_simp

section \<open>The filename policy\<close>

lemma bitlen_le: "n < 2 ^ k \<Longrightarrow> bitlen n \<le> k"
proof (induction n arbitrary: k rule: bitlen.induct)
  case (1 n)
  show ?case
  proof (cases "n = 0")
    case True
    then show ?thesis by (subst bitlen.simps) simp
  next
    case False
    then obtain j where k: "k = Suc j" using 1(2) by (cases k) auto
    have "n div 2 < 2 ^ j" using 1(2) k by auto
    then have "bitlen (n div 2) \<le> j" using 1(1)[OF False] by simp
    then show ?thesis using False k by (subst bitlen.simps) simp
  qed
qed

lemma round53_exact:
  assumes "m < 2 ^ 53"
  shows "round53 (m * 2 ^ e) = (if m * 2 ^ e < 2 ^ 53 then (m * 2 ^ e, 0)
           else ((m * 2 ^ e) div 2 ^ (bitlen (m * 2 ^ e) - 53), bitlen (m * 2 ^ e) - 53))
         \<and> bitlen (m * 2 ^ e) - 53 \<le> e"
proof -
  let ?a = "m * 2 ^ e"
  let ?sh = "bitlen ?a - 53"
  have "?a < 2 ^ (53 + e)" using assms by (simp add: power_add)
  then have "bitlen ?a \<le> 53 + e" by (rule bitlen_le)
  then have sh: "?sh \<le> e" by simp
  then have "(2::nat) ^ ?sh dvd 2 ^ e" by (simp add: le_imp_power_dvd)
  then have "2 ^ ?sh dvd ?a" by simp
  then have "?a mod 2 ^ ?sh = 0" by simp
  then show ?thesis using sh by (simp add: round53_def Let_def)
qed

lemma sint_of_small:
  assumes "- (2 ^ 63) \<le> k" and "k < 2 ^ 63"
  shows "sint (word_of_int k :: 64 word) = k"
  using assms by (simp add: sint_sbintrunc' signed_take_bit_int_eq_self)

lemma int64_in_range:
  assumes "trunc_mag m e < 2 ^ 63"
  shows "- (2 ^ 63) \<le> (if s then - int (trunc_mag m e) else int (trunc_mag m e))
       \<and> (if s then - int (trunc_mag m e) else int (trunc_mag m e)) < 2 ^ 63"
proof -
  have "int (trunc_mag m e) < 2 ^ 63"
    using assms by (metis of_nat_less_iff of_nat_numeral of_nat_power)
  then show ?thesis by (cases s) simp_all
qed

lemma float64_of_int64_of_float64:
  assumes "trunc_mag m e < 2 ^ 63"
  shows "float64_of_int64 (int64_of_float64 ov (Finite s m e)) =
     (case round53 (trunc_mag m e) of (q, sh) \<Rightarrow> Finite (s \<and> trunc_mag m e \<noteq> 0) q (int sh))"
proof -
  let ?a = "trunc_mag m e"
  let ?k = "if s then - int ?a else int ?a"
  note rng = int64_in_range[OF assms, of s]
  then have conv: "int64_of_float64 ov (Finite s m e) = word_of_int ?k"
    by (simp add: Let_def)
  have si: "sint (word_of_int ?k :: 64 word) = ?k"
    using rng sint_of_small[of ?k] by blast
  have ab: "nat \<bar>?k\<bar> = ?a" by simp
  have ng: "(?k < 0) = (s \<and> ?a \<noteq> 0)" by simp
  show ?thesis
    unfolding conv float64_of_int64_def si ab ng ..
qed

lemma pow2_div_cancel:
  fixes m :: nat
  assumes "sh \<le> e"
  shows "(m * 2 ^ e) div 2 ^ sh = m * 2 ^ (e - sh)"
proof -
  have p: "(2::nat) ^ e = 2 ^ (e - sh) * 2 ^ sh"
    using assms by (simp flip: power_add)
  have "m * 2 ^ e div 2 ^ sh = (m * 2 ^ (e - sh)) * 2 ^ sh div 2 ^ sh"
    unfolding p by (simp add: mult.assoc)
  also have "\<dots> = m * 2 ^ (e - sh)" by simp
  finally show ?thesis .
qed

lemma float_eq_roundtrip:
  assumes "m < 2 ^ 53" and "0 \<le> e \<or> 2 ^ nat (- e) dvd m" and "trunc_mag m e < 2 ^ 63"
  shows "float_eq (Finite s m e) (float64_of_int64 (int64_of_float64 ov (Finite s m e)))"
proof (cases "0 \<le> e")
  case True
  let ?a = "m * 2 ^ nat e"
  let ?sh = "bitlen ?a - 53"
  have a: "trunc_mag m e = ?a" using True by (simp add: trunc_mag_def)
  from round53_exact[OF assms(1), of "nat e"]
  have r: "round53 ?a = (if ?a < 2 ^ 53 then (?a, 0) else (?a div 2 ^ ?sh, ?sh))"
    and sh: "?sh \<le> nat e"
    by auto
  have q: "?a div 2 ^ ?sh = m * 2 ^ (nat e - ?sh)"
    using sh by (rule pow2_div_cancel)
  have ne: "nat (e - int ?sh) = nat e - ?sh" using True by simp
  have le: "int ?sh \<le> e" using sh True by simp
  show ?thesis
  proof (cases "?a < 2 ^ 53")
    case lt: True
    have "float_eq (Finite s m e) (Finite (s \<and> ?a \<noteq> 0) ?a 0)"
      using True by (cases "m = 0") simp_all
    then show ?thesis
      unfolding float64_of_int64_of_float64[OF assms(3)] a using r lt by simp
  next
    case ge: False
    have "float_eq (Finite s m e) (Finite (s \<and> ?a \<noteq> 0) (m * 2 ^ (nat e - ?sh)) (int ?sh))"
      using le ne by (cases "m = 0") simp_all
    then show ?thesis
      unfolding float64_of_int64_of_float64[OF assms(3)] a using r ge q by simp
  qed
next
  case False
  let ?a = "m div 2 ^ nat (- e)"
  from False have d: "2 ^ nat (- e) dvd m" using assms(2) by simp
  have a: "trunc_mag m e = ?a" using False by (simp add: trunc_mag_def)
  have am: "?a \<le> m" by (rule div_le_dividend)
  have lt: "?a < 2 ^ 53" using am assms(1) by (rule le_less_trans)
  have r: "round53 ?a = (?a, 0)" using lt by (simp add: round53_def)
  have bk: "?a * 2 ^ nat (- e) = m" using d by simp
  have z: "?a = 0 \<longleftrightarrow> m = 0"
    using bk by (metis mult_eq_0_iff power_not_zero zero_neq_numeral mult_zero_left)
  have "float_eq (Finite s m e) (Finite (s \<and> ?a \<noteq> 0) ?a 0)"
    using False bk z by (cases "m = 0") simp_all
  then show ?thesis
    unfolding float64_of_int64_of_float64[OF assms(3)] a r by simp
qed

lemma show_nat_digits: "set (show_nat n) \<subseteq> set ''0123456789''"
proof (induction n rule: show_nat.induct)
  case (1 n)
  have d: "\<And>k. digit_char k \<in> set ''0123456789''"
    unfolding digit_char_def by (rule nth_mem) simp
  show ?case
  proof (cases "n < 10")
    case True
    then show ?thesis using d[of n] by (subst show_nat.simps) simp
  next
    case False
    then show ?thesis using 1 d[of "n mod 10"] by (subst show_nat.simps) simp
  qed
qed

lemma show_nat_nonempty: "show_nat n \<noteq> []"
  by (subst show_nat.simps) simp

lemma show_nat_is_digits: "is_digits (show_nat n)"
  using show_nat_digits show_nat_nonempty by (simp add: is_digits_def)

lemma show_nat_no_point: "CHR ''.'' \<notin> set (show_nat n)"
  using show_nat_digits[of n] by auto

lemma float_eq_fraction:
  assumes "\<not> is_integral (Finite s m e)"
  shows "\<not> float_eq (Finite s m e) (float64_of_int64 n)"
proof -
  from assms have e: "e < 0" and nd: "\<not> 2 ^ nat (- e) dvd m" by auto
  obtain q sh where r: "round53 (nat \<bar>sint n\<bar>) = (q, sh)" by (cases "round53 (nat \<bar>sint n\<bar>)")
  have f: "float64_of_int64 n = Finite (sint n < 0) q (int sh)"
    by (simp add: float64_of_int64_def r)
  have m0: "m \<noteq> 0" using nd by (cases "m = 0") auto
  have "m \<noteq> q * 2 ^ nat (int sh - e)"
  proof
    assume h: "m = q * 2 ^ nat (int sh - e)"
    have "nat (int sh - e) = sh + nat (- e)" using e by simp
    then have "m = q * 2 ^ sh * 2 ^ nat (- e)" using h by (simp add: power_add)
    then show False using nd by simp
  qed
  then show ?thesis unfolding f using e m0 by simp
qed

lemma chapterStr_fraction:
  assumes "\<not> is_integral (Finite s m e)"
  shows "chapterStr env (Finite s m e) =
      (if s then ''-'' else []) @ show_nat (round_scaled (m * 10) e div 10) @ ''.'' @
      [digit_char (round_scaled (m * 10) e mod 10)]"
proof -
  have one: "show_nat (round_scaled (m * 10) e mod 10) = [digit_char (round_scaled (m * 10) e mod 10)]"
    by (subst show_nat.simps) simp
  show ?thesis
    using float_eq_fraction[OF assms] by (simp add: chapterStr_def Let_def one zero_pad_def)
qed

lemma chapterStr_integral:
  assumes "m < 2 ^ 53" and "is_integral (Finite s m e)" and "trunc_mag m e < 2 ^ 63"
  shows "chapterStr env (Finite s m e) = (if s then ''-'' else []) @ show_nat (trunc_mag m e)"
proof -
  have i: "0 \<le> e \<or> 2 ^ nat (- e) dvd m" using assms(2) by simp
  have r: "round_scaled m e = trunc_mag m e"
    using i by (auto simp: round_scaled_def trunc_mag_def Let_def)
  show ?thesis
    using float_eq_roundtrip[OF assms(1) i assms(3)] by (simp add: chapterStr_def r)
qed

text \<open>
  Where the test \<open>chapterNumber == float64(int64(chapterNumber))\<close> of GetCBZFilename
  recognises a whole number: inside the range of an int64. There a whole chapter number is
  rendered without a decimal point, and everywhere a finite chapter number that is not
  whole is rendered with exactly one decimal digit. The output always ends in ".cbz", and
  the two examples hold: ("One Piece", 1, "Romance Dawn") and ("X", 1.5, "").
\<close>

lemma GetCBZFilename_format:
  "(is_float64 (Finite s m e) \<and> is_integral (Finite s m e) \<and> trunc_mag m e < 2 ^ 63 \<longrightarrow>
      chapterStr env (Finite s m e) = (if s then ''-'' else []) @ show_nat (trunc_mag m e)
      \<and> CHR ''.'' \<notin> set (chapterStr env (Finite s m e)))
   \<and> (\<not> is_integral (Finite s' m' e') \<longrightarrow>
      (\<exists>ds d. chapterStr env (Finite s' m' e') = (if s' then ''-'' else []) @ ds @ ''.'' @ [d]
         \<and> is_digits ds \<and> is_digits [d]))
   \<and> GetCBZFilename env title x chapterTitle =
       sanitizeFilename title @ '' - Chapter '' @ chapterStr env x @
       (if chapterTitle = [] then [] else '' - '' @ sanitizeFilename chapterTitle) @ ''.cbz''
   \<and> HasSuffix (GetCBZFilename env title x chapterTitle) ''.cbz''
   \<and> GetCBZFilename env ''One Piece'' (Finite False 1 0) ''Romance Dawn''
       = ''One Piece - Chapter 1 - Romance Dawn.cbz''
   \<and> GetCBZFilename env ''X'' (Finite False 3 (- 1)) [] = ''X - Chapter 1.5.cbz''"
proof -
  have A: "is_float64 (Finite s m e) \<and> is_integral (Finite s m e) \<and> trunc_mag m e < 2 ^ 63 \<longrightarrow>
      chapterStr env (Finite s m e) = (if s then ''-'' else []) @ show_nat (trunc_mag m e)
      \<and> CHR ''.'' \<notin> set (chapterStr env (Finite s m e))"
  proof (intro impI, elim conjE)
    assume h: "is_float64 (Finite s m e)" "is_integral (Finite s m e)" "trunc_mag m e < 2 ^ 63"
    from h(1) have m: "m < 2 ^ 53" by simp
    have c: "chapterStr env (Finite s m e) = (if s then ''-'' else []) @ show_nat (trunc_mag m e)"
      by (rule chapterStr_integral[OF m h(2) h(3)])
    show "chapterStr env (Finite s m e) = (if s then ''-'' else []) @ show_nat (trunc_mag m e)
      \<and> CHR ''.'' \<notin> set (chapterStr env (Finite s m e))"
      unfolding c using show_nat_no_point[of "trunc_mag m e"] by simp
  qed
  have B: "\<not> is_integral (Finite s' m' e') \<longrightarrow>
      (\<exists>ds d. chapterStr env (Finite s' m' e') = (if s' then ''-'' else []) @ ds @ ''.'' @ [d]
         \<and> is_digits ds \<and> is_digits [d])"
  proof
    assume h: "\<not> is_integral (Finite s' m' e')"
    let ?r = "round_scaled (m' * 10) e'"
    have d: "is_digits [digit_char (?r mod 10)]"
      unfolding is_digits_def digit_char_def using nth_mem[of "?r mod 10 mod 10" "''0123456789''"]
      by simp
    show "\<exists>ds d. chapterStr env (Finite s' m' e') = (if s' then ''-'' else []) @ ds @ ''.'' @ [d]
         \<and> is_digits ds \<and> is_digits [d]"
      using chapterStr_fraction[OF h, of env] show_nat_is_digits[of "?r div 10"] d by blast
  qed
  have C: "GetCBZFilename env title x chapterTitle =
       sanitizeFilename title @ '' - Chapter '' @ chapterStr env x @
       (if chapterTitle = [] then [] else '' - '' @ sanitizeFilename chapterTitle) @ ''.cbz''"
    by (simp add: GetCBZFilename_def Let_def)
  have D: "HasSuffix (GetCBZFilename env title x chapterTitle) ''.cbz''"
    by (simp add: GetCBZFilename_def Let_def HasSuffix_def)
  have s1: "sanitizeFilename ''One Piece'' = ''One Piece''"
    and s2: "sanitizeFilename ''Romance Dawn'' = ''Romance Dawn''"
    and s3: "sanitizeFilename ''X'' = ''X''"
    by (simp_all add: sanitizeFilename_def invalidChars_def ReplaceAll_char_def TrimRight_def)
  have p1: "(1::nat) < 2 ^ 53" and p2: "is_integral (Finite False 1 0)"
    and p3: "trunc_mag 1 0 < 2 ^ 63" and p4: "\<not> is_integral (Finite False 3 (- 1))"
    by (simp_all add: trunc_mag_def)
  have t1: "show_nat (trunc_mag 1 0) = ''1''"
    by (simp add: trunc_mag_def show_nat.simps digit_char_def)
  have t2: "round_scaled (3 * 10) (- 1) = 15"
    by (simp add: round_scaled_def)
  have t3: "show_nat (15 div 10) = ''1''" "digit_char (15 mod 10) = CHR ''5''"
    by (simp_all add: show_nat.simps digit_char_def)
  have i1: "chapterStr env (Finite False 1 0) = ''1''"
    unfolding chapterStr_integral[OF p1 p2 p3] t1 by simp
  have i2: "chapterStr env (Finite False 3 (- 1)) = ''1.5''"
    unfolding chapterStr_fraction[OF p4] t2 t3 by simp
  have E: "GetCBZFilename env ''One Piece'' (Finite False 1 0) ''Romance Dawn''
       = ''One Piece - Chapter 1 - Romance Dawn.cbz''"
    unfolding GetCBZFilename_def Let_def s1 s2 i1 by simp
  have F: "GetCBZFilename env ''X'' (Finite False 3 (- 1)) [] = ''X - Chapter 1.5.cbz''"
    unfolding GetCBZFilename_def Let_def s3 i2 by simp
  show ?thesis using A B C D E F by blast
qed

lemma GetCBZFilename_format_example:
  "is_float64 (Finite False 7 0) \<and> is_integral (Finite False 7 0) \<and> trunc_mag 7 0 < 2 ^ 63
   \<and> chapterStr quiet_env (Finite False 7 0) = ''7''
   \<and> \<not> is_integral (Finite True 5 (- 2))
   \<and> (\<exists>ds d. chapterStr quiet_env (Finite True 5 (- 2)) = ''-'' @ ds @ ''.'' @ [d]
         \<and> is_digits ds \<and> is_digits [d])"
proof -
  have a: "is_float64 (Finite False 7 0)" "is_integral (Finite False 7 0)" "trunc_mag 7 0 < 2 ^ 63"
    by (simp_all add: trunc_mag_def)
  have b: "\<not> is_integral (Finite True 5 (- 2))" by simp
  have c: "show_nat (trunc_mag 7 0) = ''7''"
    by (simp add: trunc_mag_def show_nat.simps digit_char_def)
  show ?thesis
    using GetCBZFilename_format[of False 7 0 quiet_env True 5 "- 2" "''X''" "Finite True 5 (- 2)" "[]"]
      a b c by simp
qed

lemma round53_bound:
  assumes "a \<le> 2 ^ 63" and "round53 a = (q, sh)"
  shows "q * 2 ^ sh < 2 ^ 64"
proof (cases "a < 2 ^ 53")
  case True
  then have "q = a" "sh = 0" using assms(2) by (simp_all add: round53_def)
  then show ?thesis using True by simp
next
  case False
  have s: "sh = bitlen a - 53" using assms(2) False by (auto simp: round53_def Let_def split: if_splits)
  have "a < 2 ^ 64" using assms(1) by simp
  then have "bitlen a \<le> 64" by (rule bitlen_le)
  then have sh: "sh \<le> 11" using s by simp
  have q: "q \<le> Suc (a div 2 ^ sh)"
    using assms(2) False s by (auto simp: round53_def Let_def split: if_splits)
  have "q * 2 ^ sh \<le> Suc (a div 2 ^ sh) * 2 ^ sh" using q by (rule mult_le_mono1)
  also have "\<dots> = (a div 2 ^ sh) * 2 ^ sh + 2 ^ sh" by simp
  also have "\<dots> \<le> a + 2 ^ sh" by simp
  also have "\<dots> \<le> 2 ^ 63 + 2 ^ 11"
    using assms(1) power_increasing[OF sh, of "2::nat"] by (intro add_mono) simp_all
  also have "\<dots> < 2 ^ 64" by simp
  finally show ?thesis .
qed

lemma float64_of_int64_below:
  "\<not> float_eq (Finite False 1 64) (float64_of_int64 w)"
proof -
  obtain q sh where r: "round53 (nat \<bar>sint w\<bar>) = (q, sh)" by (cases "round53 (nat \<bar>sint w\<bar>)")
  have "- (2 ^ 63) \<le> sint w" "sint w < 2 ^ 63"
    using sint_ge[of w] sint_lt[of w] by simp_all
  then have "nat \<bar>sint w\<bar> \<le> 2 ^ 63" by simp
  from round53_bound[OF this r] have b: "q * 2 ^ sh < 2 ^ 64" .
  have f: "float64_of_int64 w = Finite (sint w < 0) q (int sh)"
    using r by (simp add: float64_of_int64_def)
  show ?thesis
  proof
    assume "float_eq (Finite False 1 64) (float64_of_int64 w)"
    then have e: "if int sh \<le> 64 then 1 * 2 ^ nat (64 - int sh) = q
                  else 1 = q * 2 ^ nat (int sh - 64)"
      unfolding f by (auto split: if_splits)
    show False
    proof (cases "sh \<le> 64")
      case True
      then have "q = 2 ^ (64 - sh)" using e by (simp add: nat_diff_distrib')
      then have "q * 2 ^ sh = 2 ^ 64" using True by (simp flip: power_add)
      then show False using b by simp
    next
      case False
      then have "1 = q * 2 ^ nat (int sh - 64)" using e by simp
      moreover have "nat (int sh - 64) = sh - 64" by simp
      ultimately have "1 = q * 2 ^ (sh - 64)" by simp
      then have "2 ^ (sh - 64) = (1::nat)" by simp
      then show False using False by simp
    qed
  qed
qed

text \<open>
  C9 at the chapter number \<open>2^64\<close>. It is a float64 and a whole number, and the claim has it
  rendered without a decimal point. The code renders it with one: \<open>int64(chapterNumber)\<close>
  cannot hold \<open>2^64\<close>, and whatever int64 the platform makes of it, converting that back
  does not give \<open>2^64\<close>, so the test for a whole number fails and \<open>%.1f\<close> is used.
\<close>

theorem GetCBZFilename_beyond_int64:
  "is_float64 (Finite False 1 64) \<and> is_integral (Finite False 1 64)
   \<and> round_scaled 1 64 = 18446744073709551616
   \<and> chapterStr env (Finite False 1 64) = ''18446744073709551616.0''
   \<and> GetCBZFilename env ''X'' (Finite False 1 64) [] = ''X - Chapter 18446744073709551616.0.cbz''"
proof -
  have s: "sanitizeFilename ''X'' = ''X''"
    by (simp add: sanitizeFilename_def invalidChars_def ReplaceAll_char_def TrimRight_def)
  have c: "chapterStr env (Finite False 1 64) = fmt_f 1 (Finite False 1 64)"
    unfolding chapterStr_def using float64_of_int64_below by simp
  have d: "fmt_f 1 (Finite False 1 64) = ''18446744073709551616.0''"
    by (simp add: round_scaled_def show_nat.simps digit_char_def zero_pad_def)
  have v: "round_scaled 1 64 = 18446744073709551616"
    by (simp add: round_scaled_def)
  show ?thesis
    unfolding GetCBZFilename_def Let_def s c d using v by simp
qed

section \<open>Several chapters\<close>

lemma write_entries_None:
  "write_entries env p progress i files es st = (None, es', st') \<Longrightarrow>
   es' = es @ map (\<lambda>f. (entry_name (Page f), Data f)) files"
proof (induction files arbitrary: i es st)
  case Nil
  then show ?case by simp
next
  case (Cons f files)
  from Cons.prems
  have "write_entries env p progress (Suc i) files (es @ [(entry_name (Page f), Data f)])
          (report progress 1 (int i) st) = (None, es', st')"
    by (auto simp: Let_def split: option.splits)
  from Cons.IH[OF this] show ?case by simp
qed

lemma ArchiveCBZ_keeps_files:
  assumes "fs_files fs p = Some c"
  shows "fs_files (fst (snd (ArchiveCBZ env filename files progress fs st))) p = Some c"
  using assms
  by (auto simp: ArchiveCBZ_def MkdirAll_def OpenFile_excl_def Let_def
        split: option.splits sum.splits if_splits prod.splits)

lemma ArchiveCBZ_None_listing:
  assumes "ArchiveCBZ env filename files progress fs st = (None, fs', st')"
  shows "fs_files fs' (cbz_path filename) =
           Some (Archive (map (\<lambda>f. (entry_name (Page f), Data f)) files))"
  using assms
  by (auto simp: ArchiveCBZ_def MkdirAll_def OpenFile_excl_def Let_def
        split: option.splits sum.splits if_splits prod.splits dest!: write_entries_None)

lemma archive_chapters_keeps_files:
  "fs_files fs p = Some c \<Longrightarrow>
   fs_files (fst (snd (archive_chapters env baseDir titles nums progress n gs fs st))) p = Some c"
proof (induction gs arbitrary: n fs st)
  case Nil
  then show ?case by simp
next
  case (Cons g gs)
  obtain k files where g: "g = (k, files)" by (cases g)
  show ?case
  proof (cases "files = []")
    case True
    then show ?thesis using Cons g by simp
  next
    case False
    let ?cp = "Some (\<lambda>page fileProgress. report progress page (n + fileProgress))"
    let ?r = "ArchiveCBZ env (chapter_path env baseDir titles nums k) files ?cp fs st"
    obtain err fs1 st1 where r: "?r = (err, fs1, st1)" by (cases ?r)
    have k1: "fs_files fs1 p = Some c"
      using ArchiveCBZ_keeps_files[OF Cons.prems, of env "chapter_path env baseDir titles nums k" files ?cp st] r
      by simp
    show ?thesis
      using False g r k1 Cons.IH[OF k1] by (cases err) (simp_all add: Let_def)
  qed
qed

lemma archive_chapters_stops:
  "fst (archive_chapters env baseDir titles nums progress n gs fs st) \<noteq> None \<Longrightarrow>
   archive_chapters env baseDir titles nums progress n (gs @ rest) fs st =
   archive_chapters env baseDir titles nums progress n gs fs st"
proof (induction gs arbitrary: n fs st)
  case Nil
  then show ?case by simp
next
  case (Cons g gs)
  obtain k files where g: "g = (k, files)" by (cases g)
  show ?case
  proof (cases "files = []")
    case True
    then show ?thesis using Cons g by simp
  next
    case False
    let ?cp = "Some (\<lambda>page fileProgress. report progress page (n + fileProgress))"
    let ?r = "ArchiveCBZ env (chapter_path env baseDir titles nums k) files ?cp fs st"
    obtain err fs1 st1 where r: "?r = (err, fs1, st1)" by (cases ?r)
    show ?thesis
    proof (cases err)
      case None
      then show ?thesis using False g r Cons by (simp add: Let_def)
    next
      case (Some e)
      then show ?thesis using False g r by (simp add: Let_def)
    qed
  qed
qed

lemma archive_chapters_error_shape:
  "fst (archive_chapters env baseDir titles nums progress n gs fs st) = Some e \<Longrightarrow>
   \<exists>k files c. (k, files) \<in> set gs \<and> files \<noteq> [] \<and> e = ArchiveChapterFailed k c"
proof (induction gs arbitrary: n fs st)
  case Nil
  then show ?case by simp
next
  case (Cons g gs)
  obtain k files where g: "g = (k, files)" by (cases g)
  show ?case
  proof (cases "files = []")
    case True
    then show ?thesis using Cons g by fastforce
  next
    case False
    let ?cp = "Some (\<lambda>page fileProgress. report progress page (n + fileProgress))"
    let ?r = "ArchiveCBZ env (chapter_path env baseDir titles nums k) files ?cp fs st"
    obtain err fs1 st1 where r: "?r = (err, fs1, st1)" by (cases ?r)
    show ?thesis
    proof (cases err)
      case None
      then have "fst (archive_chapters env baseDir titles nums progress (n + int (length files)) gs fs1 st1) = Some e"
        using False g r Cons.prems by (simp add: Let_def)
      from Cons.IH[OF this] show ?thesis by auto
    next
      case (Some c)
      then have "e = ArchiveChapterFailed k c" using False g r Cons.prems by (simp add: Let_def)
      then show ?thesis using False g by auto
    qed
  qed
qed

lemma archive_chapters_containers:
  "fst (archive_chapters env baseDir titles nums progress n gs fs st) = None \<Longrightarrow>
   (k, files) \<in> set gs \<Longrightarrow> files \<noteq> [] \<Longrightarrow>
   fs_files (fst (snd (archive_chapters env baseDir titles nums progress n gs fs st)))
     (cbz_path (chapter_path env baseDir titles nums k)) =
   Some (Archive (map (\<lambda>f. (entry_name (Page f), Data f)) files))"
proof (induction gs arbitrary: n fs st)
  case Nil
  then show ?case by simp
next
  case (Cons g gs)
  obtain k' files' where g: "g = (k', files')" by (cases g)
  show ?case
  proof (cases "files' = []")
    case True
    then show ?thesis using Cons g by auto
  next
    case False
    let ?cp = "Some (\<lambda>page fileProgress. report progress page (n + fileProgress))"
    let ?r = "ArchiveCBZ env (chapter_path env baseDir titles nums k') files' ?cp fs st"
    obtain err fs1 st1 where r: "?r = (err, fs1, st1)" by (cases ?r)
    have none: "err = None" using False g r Cons.prems(1) by (cases err) (simp_all add: Let_def)
    have step: "archive_chapters env baseDir titles nums progress n (g # gs) fs st =
        archive_chapters env baseDir titles nums progress (n + int (length files')) gs fs1 st1"
      using False g r none by (simp add: Let_def)
    have rest_ok: "fst (archive_chapters env baseDir titles nums progress (n + int (length files')) gs fs1 st1) = None"
      using Cons.prems(1) step by simp
    show ?thesis
    proof (cases "(k, files) = (k', files')")
      case True
      have "fs_files fs1 (cbz_path (chapter_path env baseDir titles nums k')) =
           Some (Archive (map (\<lambda>f. (entry_name (Page f), Data f)) files'))"
        using ArchiveCBZ_None_listing[of env _ files' ?cp fs st fs1 st1] r none by simp
      then show ?thesis
        unfolding step using True archive_chapters_keeps_files by auto
    next
      case ne: False
      then have "(k, files) \<in> set gs" using Cons.prems(2) g by auto
      from Cons.IH[OF rest_ok this Cons.prems(3)] show ?thesis unfolding step .
    qed
  qed
qed

lemma archive_chapters_append:
  "archive_chapters env baseDir titles nums progress n pre fs st = (None, fs1, st1) \<Longrightarrow>
   archive_chapters env baseDir titles nums progress n (pre @ rest) fs st =
   archive_chapters env baseDir titles nums progress (n + int (length (concat (map snd pre)))) rest fs1 st1"
proof (induction pre arbitrary: n fs st)
  case Nil
  then show ?case by simp
next
  case (Cons g gs)
  obtain k files where g: "g = (k, files)" by (cases g)
  show ?case
  proof (cases "files = []")
    case True
    then show ?thesis using Cons g by simp
  next
    case False
    let ?cp = "Some (\<lambda>page fileProgress. report progress page (n + fileProgress))"
    let ?r = "ArchiveCBZ env (chapter_path env baseDir titles nums k) files ?cp fs st"
    obtain err fs' st' where r: "?r = (err, fs', st')" by (cases ?r)
    show ?thesis
    proof (cases err)
      case None
      have "archive_chapters env baseDir titles nums progress (n + int (length files)) gs fs' st'
              = (None, fs1, st1)"
        using False g r None Cons.prems by (simp add: Let_def)
      from Cons.IH[OF this, of ] show ?thesis
        using False g r None by (simp add: Let_def add.assoc)
    next
      case (Some e)
      then show ?thesis using False g r Cons.prems by (simp add: Let_def)
    qed
  qed
qed

lemma groups_before:
  assumes "pre = [] \<and> MkdirAll env baseDir fs = Inr fs1 \<and> st1 = st \<or>
           pre \<noteq> [] \<and> ArchiveMultipleChapters env baseDir pre titles nums progress fs st = (None, fs1, st1)"
  obtains fs0 where "MkdirAll env baseDir fs = Inr fs0"
    and "archive_chapters env baseDir titles nums progress 0 pre fs0 st = (None, fs1, st1)"
proof -
  from assms consider
      (first) "pre = []" "MkdirAll env baseDir fs = Inr fs1" "st1 = st"
    | (later) "pre \<noteq> []"
        "ArchiveMultipleChapters env baseDir pre titles nums progress fs st = (None, fs1, st1)"
    by blast
  then show ?thesis
  proof cases
    case first
    then show ?thesis using that[of fs1] by simp
  next
    case later
    show ?thesis
    proof (cases "MkdirAll env baseDir fs")
      case (Inl c)
      then show ?thesis using later by (simp add: ArchiveMultipleChapters_def)
    next
      case (Inr fs0)
      then show ?thesis using later that[of fs0] by (simp add: ArchiveMultipleChapters_def)
    qed
  qed
qed

lemma ArchiveMultipleChapters_at_group:
  assumes b: "pre = [] \<and> MkdirAll env baseDir fs = Inr fs1 \<and> st1 = st \<or>
           pre \<noteq> [] \<and> ArchiveMultipleChapters env baseDir pre titles nums progress fs st = (None, fs1, st1)"
    and f: "files \<noteq> []"
    and a: "ArchiveCBZ env (chapter_path env baseDir titles nums k) files
              (Some (\<lambda>page fileProgress.
                 report progress page (int (length (concat (map snd pre))) + fileProgress)))
              fs1 st1 = (r, fs2, st2)"
  shows "ArchiveMultipleChapters env baseDir (pre @ (k, files) # after) titles nums progress fs st =
           (case r of
              Some c \<Rightarrow> (Some (ArchiveChapterFailed k c), fs2, st2)
            | None \<Rightarrow> archive_chapters env baseDir titles nums progress
                        (int (length (concat (map snd pre))) + int (length files)) after fs2 st2)"
    and "\<forall>(kp, fp) \<in> set pre. fp \<noteq> [] \<longrightarrow>
           fs_files fs2 (cbz_path (chapter_path env baseDir titles nums kp)) =
           Some (Archive (map (\<lambda>f. (entry_name (Page f), Data f)) fp))"
proof -
  from b obtain fs0 where m: "MkdirAll env baseDir fs = Inr fs0"
    and p: "archive_chapters env baseDir titles nums progress 0 pre fs0 st = (None, fs1, st1)"
    by (rule groups_before)
  have "ArchiveMultipleChapters env baseDir (pre @ (k, files) # after) titles nums progress fs st =
        archive_chapters env baseDir titles nums progress 0 (pre @ (k, files) # after) fs0 st"
    using m by (simp add: ArchiveMultipleChapters_def)
  also have "\<dots> = archive_chapters env baseDir titles nums progress
        (0 + int (length (concat (map snd pre)))) ((k, files) # after) fs1 st1"
    by (rule archive_chapters_append[OF p])
  also have "\<dots> = (case r of
              Some c \<Rightarrow> (Some (ArchiveChapterFailed k c), fs2, st2)
            | None \<Rightarrow> archive_chapters env baseDir titles nums progress
                        (int (length (concat (map snd pre))) + int (length files)) after fs2 st2)"
    using f a by (simp add: Let_def split: option.splits)
  finally show "ArchiveMultipleChapters env baseDir (pre @ (k, files) # after) titles nums progress fs st =
           (case r of
              Some c \<Rightarrow> (Some (ArchiveChapterFailed k c), fs2, st2)
            | None \<Rightarrow> archive_chapters env baseDir titles nums progress
                        (int (length (concat (map snd pre))) + int (length files)) after fs2 st2)" .
  have fs2: "fs2 = fst (snd (ArchiveCBZ env (chapter_path env baseDir titles nums k) files
              (Some (\<lambda>page fileProgress.
                 report progress page (int (length (concat (map snd pre))) + fileProgress)))
              fs1 st1))"
    using a by simp
  have fs1: "fs1 = fst (snd (archive_chapters env baseDir titles nums progress 0 pre fs0 st))"
    using p by simp
  show "\<forall>(kp, fp) \<in> set pre. fp \<noteq> [] \<longrightarrow>
           fs_files fs2 (cbz_path (chapter_path env baseDir titles nums kp)) =
           Some (Archive (map (\<lambda>f. (entry_name (Page f), Data f)) fp))"
  proof (intro ballI, clarify)
    fix kp fp assume h: "(kp, fp) \<in> set pre" "fp \<noteq> []"
    have "fs_files fs1 (cbz_path (chapter_path env baseDir titles nums kp)) =
           Some (Archive (map (\<lambda>f. (entry_name (Page f), Data f)) fp))"
      unfolding fs1 by (rule archive_chapters_containers[OF _ h]) (simp add: p)
    then show "fs_files fs2 (cbz_path (chapter_path env baseDir titles nums kp)) =
           Some (Archive (map (\<lambda>f. (entry_name (Page f), Data f)) fp))"
      unfolding fs2 by (rule ArchiveCBZ_keeps_files)
  qed
qed

lemma ArchiveMultipleChapters_skip:
  assumes "pre @ after \<noteq> []"
  shows "ArchiveMultipleChapters env baseDir (pre @ (k, []) # after) titles nums progress fs st =
         ArchiveMultipleChapters env baseDir (pre @ after) titles nums progress fs st"
proof -
  have s: "archive_chapters env baseDir titles nums progress n (pre @ (k, []) # after) fs0 st0 =
           archive_chapters env baseDir titles nums progress n (pre @ after) fs0 st0" for n fs0 st0
  proof (induction pre arbitrary: n fs0 st0)
    case Nil
    then show ?case by simp
  next
    case (Cons g gs)
    obtain k' files' where g: "g = (k', files')" by (cases g)
    show ?case using Cons g by (simp add: Let_def split: option.splits prod.splits)
  qed
  show ?thesis using assms by (simp add: ArchiveMultipleChapters_def s split: sum.splits)
qed

text \<open>
  C6, as the code has it. ArchiveMultipleChapters writes one container for each group that
  has files, at the path that joins the target directory and the name the filename
  policy gives for the group's title and number, and skips a group without files. It does
  not continue after a failure. When the groups before a group were archived and
  ArchiveCBZ fails for that group with the error \<open>c\<close>, the result is that error wrapped with
  the chapter key, \<open>ArchiveChapterFailed k c\<close>, whatever groups follow; the file system is
  the one that ArchiveCBZ left, with the containers of the groups before in it, and the
  progress reported is what was reported up to there. When ArchiveCBZ succeeds for the
  last group, the result is success. Without groups the result is "no chapters to pack",
  and a target directory that cannot be made is the error of the whole operation.
\<close>

theorem ArchiveMultipleChapters_first_error:
  "(chapters \<noteq> [] \<and>
    fst (ArchiveMultipleChapters env baseDir chapters titles nums progress fs st) \<noteq> None \<longrightarrow>
      ArchiveMultipleChapters env baseDir (chapters @ rest) titles nums progress fs st =
      ArchiveMultipleChapters env baseDir chapters titles nums progress fs st)
   \<and> (fst (ArchiveMultipleChapters env baseDir chapters titles nums progress fs st) = Some e \<longrightarrow>
        e = NoChaptersToPack \<or> (\<exists>c. e = BaseDirFailed baseDir (OS c)) \<or>
        (\<exists>k files c. (k, files) \<in> set chapters \<and> files \<noteq> [] \<and> e = ArchiveChapterFailed k c))
   \<and> (fst (ArchiveMultipleChapters env baseDir chapters' titles nums progress fs st) = None \<and>
       (k', files') \<in> set chapters' \<and> files' \<noteq> [] \<longrightarrow>
        fs_files (fst (snd (ArchiveMultipleChapters env baseDir chapters' titles nums progress fs st)))
          (cbz_path (path_join env baseDir
             (GetCBZFilename env (case titles k' of Some t \<Rightarrow> t | None \<Rightarrow> [])
                (case nums k' of Some n \<Rightarrow> n | None \<Rightarrow> Finite False 0 0) []))) =
        Some (Archive (map (\<lambda>f. (entry_name (Page f), Data f)) files')))
   \<and> ((pre = [] \<and> MkdirAll env baseDir fs = Inr fsa \<and> sta = st \<or>
        pre \<noteq> [] \<and>
        ArchiveMultipleChapters env baseDir pre titles nums progress fs st = (None, fsa, sta)) \<and>
       gfiles \<noteq> [] \<and>
       ArchiveCBZ env
         (path_join env baseDir
            (GetCBZFilename env (case titles key of Some t \<Rightarrow> t | None \<Rightarrow> [])
               (case nums key of Some n \<Rightarrow> n | None \<Rightarrow> Finite False 0 0) []))
         gfiles
         (Some (\<lambda>page fileProgress.
            report progress page (int (length (concat (map snd pre))) + fileProgress)))
         fsa sta = (r, fsb, stb) \<longrightarrow>
       (case r of
          Some c \<Rightarrow>
            ArchiveMultipleChapters env baseDir (pre @ (key, gfiles) # after) titles nums progress fs st
              = (Some (ArchiveChapterFailed key c), fsb, stb)
        | None \<Rightarrow>
            ArchiveMultipleChapters env baseDir (pre @ [(key, gfiles)]) titles nums progress fs st
              = (None, fsb, stb))
       \<and> (\<forall>(kp, fp) \<in> set pre. fp \<noteq> [] \<longrightarrow>
            fs_files fsb (cbz_path (path_join env baseDir
               (GetCBZFilename env (case titles kp of Some t \<Rightarrow> t | None \<Rightarrow> [])
                  (case nums kp of Some n \<Rightarrow> n | None \<Rightarrow> Finite False 0 0) []))) =
            Some (Archive (map (\<lambda>f. (entry_name (Page f), Data f)) fp))))
   \<and> (pre' @ after' \<noteq> [] \<longrightarrow>
        ArchiveMultipleChapters env baseDir (pre' @ (key', []) # after') titles nums progress fs st =
        ArchiveMultipleChapters env baseDir (pre' @ after') titles nums progress fs st)
   \<and> ArchiveMultipleChapters env baseDir [] titles nums progress fs st = (Some NoChaptersToPack, fs, st)
   \<and> (chapters'' \<noteq> [] \<and> MkdirAll env baseDir fs = Inl oe \<longrightarrow>
        ArchiveMultipleChapters env baseDir chapters'' titles nums progress fs st =
        (Some (BaseDirFailed baseDir (OS oe)), fs, st))"
proof -
  have A: "chapters \<noteq> [] \<and>
    fst (ArchiveMultipleChapters env baseDir chapters titles nums progress fs st) \<noteq> None \<longrightarrow>
      ArchiveMultipleChapters env baseDir (chapters @ rest) titles nums progress fs st =
      ArchiveMultipleChapters env baseDir chapters titles nums progress fs st"
  proof
    assume h: "chapters \<noteq> [] \<and>
      fst (ArchiveMultipleChapters env baseDir chapters titles nums progress fs st) \<noteq> None"
    show "ArchiveMultipleChapters env baseDir (chapters @ rest) titles nums progress fs st =
        ArchiveMultipleChapters env baseDir chapters titles nums progress fs st"
    proof (cases "MkdirAll env baseDir fs")
      case (Inl c)
      then show ?thesis using h by (auto simp: ArchiveMultipleChapters_def)
    next
      case (Inr fsa)
      then have "fst (archive_chapters env baseDir titles nums progress 0 chapters fsa st) \<noteq> None"
        using h by (auto simp: ArchiveMultipleChapters_def)
      from archive_chapters_stops[OF this, of rest] show ?thesis
        using h Inr by (auto simp: ArchiveMultipleChapters_def)
    qed
  qed
  have B: "fst (ArchiveMultipleChapters env baseDir chapters titles nums progress fs st) = Some e \<longrightarrow>
        e = NoChaptersToPack \<or> (\<exists>c. e = BaseDirFailed baseDir (OS c)) \<or>
        (\<exists>k files c. (k, files) \<in> set chapters \<and> files \<noteq> [] \<and> e = ArchiveChapterFailed k c)"
  proof
    assume h: "fst (ArchiveMultipleChapters env baseDir chapters titles nums progress fs st) = Some e"
    show "e = NoChaptersToPack \<or> (\<exists>c. e = BaseDirFailed baseDir (OS c)) \<or>
          (\<exists>k files c. (k, files) \<in> set chapters \<and> files \<noteq> [] \<and> e = ArchiveChapterFailed k c)"
    proof (cases "chapters = []")
      case True
      then show ?thesis using h by (simp add: ArchiveMultipleChapters_def)
    next
      case ne: False
      show ?thesis
      proof (cases "MkdirAll env baseDir fs")
        case (Inl c)
        then show ?thesis using h ne by (auto simp: ArchiveMultipleChapters_def)
      next
        case (Inr fsa)
        then have "fst (archive_chapters env baseDir titles nums progress 0 chapters fsa st) = Some e"
          using h ne by (simp add: ArchiveMultipleChapters_def)
        from archive_chapters_error_shape[OF this] show ?thesis by blast
      qed
    qed
  qed
  have C: "fst (ArchiveMultipleChapters env baseDir chapters' titles nums progress fs st) = None \<and>
       (k', files') \<in> set chapters' \<and> files' \<noteq> [] \<longrightarrow>
        fs_files (fst (snd (ArchiveMultipleChapters env baseDir chapters' titles nums progress fs st)))
          (cbz_path (path_join env baseDir
             (GetCBZFilename env (case titles k' of Some t \<Rightarrow> t | None \<Rightarrow> [])
                (case nums k' of Some n \<Rightarrow> n | None \<Rightarrow> Finite False 0 0) []))) =
        Some (Archive (map (\<lambda>f. (entry_name (Page f), Data f)) files'))"
  proof
    assume h: "fst (ArchiveMultipleChapters env baseDir chapters' titles nums progress fs st) = None \<and>
         (k', files') \<in> set chapters' \<and> files' \<noteq> []"
    then have ne: "chapters' \<noteq> []" by auto
    show "fs_files (fst (snd (ArchiveMultipleChapters env baseDir chapters' titles nums progress fs st)))
            (cbz_path (path_join env baseDir
               (GetCBZFilename env (case titles k' of Some t \<Rightarrow> t | None \<Rightarrow> [])
                  (case nums k' of Some n \<Rightarrow> n | None \<Rightarrow> Finite False 0 0) []))) =
          Some (Archive (map (\<lambda>f. (entry_name (Page f), Data f)) files'))"
    proof (cases "MkdirAll env baseDir fs")
      case (Inl c)
      then show ?thesis using h ne by (auto simp: ArchiveMultipleChapters_def)
    next
      case (Inr fsa)
      then have ok: "fst (archive_chapters env baseDir titles nums progress 0 chapters' fsa st) = None"
        using h ne by (auto simp: ArchiveMultipleChapters_def)
      have "(k', files') \<in> set chapters'" "files' \<noteq> []" using h by auto
      from archive_chapters_containers[OF ok this] show ?thesis
        using ne Inr by (simp add: ArchiveMultipleChapters_def chapter_path_def Let_def)
    qed
  qed
  have p: "path_join env baseDir
            (GetCBZFilename env (case titles x of Some t \<Rightarrow> t | None \<Rightarrow> [])
               (case nums x of Some n \<Rightarrow> n | None \<Rightarrow> Finite False 0 0) [])
          = chapter_path env baseDir titles nums x" for x
    by (simp add: chapter_path_def Let_def)
  have D: "(pre = [] \<and> MkdirAll env baseDir fs = Inr fsa \<and> sta = st \<or>
        pre \<noteq> [] \<and>
        ArchiveMultipleChapters env baseDir pre titles nums progress fs st = (None, fsa, sta)) \<and>
       gfiles \<noteq> [] \<and>
       ArchiveCBZ env
         (path_join env baseDir
            (GetCBZFilename env (case titles key of Some t \<Rightarrow> t | None \<Rightarrow> [])
               (case nums key of Some n \<Rightarrow> n | None \<Rightarrow> Finite False 0 0) []))
         gfiles
         (Some (\<lambda>page fileProgress.
            report progress page (int (length (concat (map snd pre))) + fileProgress)))
         fsa sta = (r, fsb, stb) \<longrightarrow>
       (case r of
          Some c \<Rightarrow>
            ArchiveMultipleChapters env baseDir (pre @ (key, gfiles) # after) titles nums progress fs st
              = (Some (ArchiveChapterFailed key c), fsb, stb)
        | None \<Rightarrow>
            ArchiveMultipleChapters env baseDir (pre @ [(key, gfiles)]) titles nums progress fs st
              = (None, fsb, stb))
       \<and> (\<forall>(kp, fp) \<in> set pre. fp \<noteq> [] \<longrightarrow>
            fs_files fsb (cbz_path (path_join env baseDir
               (GetCBZFilename env (case titles kp of Some t \<Rightarrow> t | None \<Rightarrow> [])
                  (case nums kp of Some n \<Rightarrow> n | None \<Rightarrow> Finite False 0 0) []))) =
            Some (Archive (map (\<lambda>f. (entry_name (Page f), Data f)) fp)))"
    unfolding p
  proof (intro impI, elim conjE)
    assume b: "pre = [] \<and> MkdirAll env baseDir fs = Inr fsa \<and> sta = st \<or>
        pre \<noteq> [] \<and>
        ArchiveMultipleChapters env baseDir pre titles nums progress fs st = (None, fsa, sta)"
      and g: "gfiles \<noteq> []"
      and a: "ArchiveCBZ env (chapter_path env baseDir titles nums key) gfiles
         (Some (\<lambda>page fileProgress.
            report progress page (int (length (concat (map snd pre))) + fileProgress)))
         fsa sta = (r, fsb, stb)"
    note R = ArchiveMultipleChapters_at_group[OF b g a]
    have one: "(case r of
          Some c \<Rightarrow>
            ArchiveMultipleChapters env baseDir (pre @ (key, gfiles) # after) titles nums progress fs st
              = (Some (ArchiveChapterFailed key c), fsb, stb)
        | None \<Rightarrow>
            ArchiveMultipleChapters env baseDir (pre @ [(key, gfiles)]) titles nums progress fs st
              = (None, fsb, stb))"
    proof (cases r)
      case None
      then show ?thesis using R(1)[of "[]"] by simp
    next
      case (Some c)
      then show ?thesis using R(1)[of after] by simp
    qed
    show "(case r of
          Some c \<Rightarrow>
            ArchiveMultipleChapters env baseDir (pre @ (key, gfiles) # after) titles nums progress fs st
              = (Some (ArchiveChapterFailed key c), fsb, stb)
        | None \<Rightarrow>
            ArchiveMultipleChapters env baseDir (pre @ [(key, gfiles)]) titles nums progress fs st
              = (None, fsb, stb))
       \<and> (\<forall>(kp, fp) \<in> set pre. fp \<noteq> [] \<longrightarrow>
            fs_files fsb (cbz_path (chapter_path env baseDir titles nums kp)) =
            Some (Archive (map (\<lambda>f. (entry_name (Page f), Data f)) fp)))"
      using one R(2) by blast
  qed
  have E: "pre' @ after' \<noteq> [] \<longrightarrow>
        ArchiveMultipleChapters env baseDir (pre' @ (key', []) # after') titles nums progress fs st =
        ArchiveMultipleChapters env baseDir (pre' @ after') titles nums progress fs st"
    by (rule impI) (rule ArchiveMultipleChapters_skip)
  have F: "ArchiveMultipleChapters env baseDir [] titles nums progress fs st = (Some NoChaptersToPack, fs, st)"
    by (simp add: ArchiveMultipleChapters_def)
  have G: "chapters'' \<noteq> [] \<and> MkdirAll env baseDir fs = Inl oe \<longrightarrow>
        ArchiveMultipleChapters env baseDir chapters'' titles nums progress fs st =
        (Some (BaseDirFailed baseDir (OS oe)), fs, st)"
    by (simp add: ArchiveMultipleChapters_def)
  from A B C D E F G show ?thesis by (intro conjI)
qed

lemma chapterStr_small:
  "chapterStr quiet_env (Finite False 1 0) = ''1''" "chapterStr quiet_env (Finite False 2 0) = ''2''"
proof -
  have p: "(1::nat) < 2 ^ 53" "is_integral (Finite False 1 0)" "trunc_mag 1 0 < 2 ^ 63"
     "(2::nat) < 2 ^ 53" "is_integral (Finite False 2 0)" "trunc_mag 2 0 < 2 ^ 63"
    by (simp_all add: trunc_mag_def)
  have t: "show_nat (trunc_mag 1 0) = ''1''" "show_nat (trunc_mag 2 0) = ''2''"
    by (simp_all add: trunc_mag_def show_nat.simps digit_char_def)
  have x: "chapterStr quiet_env (Finite False 1 0) = (if False then ''-'' else []) @ show_nat (trunc_mag 1 0)"
    by (rule chapterStr_integral[OF p(1) p(2) p(3)])
  have y: "chapterStr quiet_env (Finite False 2 0) = (if False then ''-'' else []) @ show_nat (trunc_mag 2 0)"
    by (rule chapterStr_integral[OF p(4) p(5) p(6)])
  show "chapterStr quiet_env (Finite False 1 0) = ''1''"
    unfolding x t by simp
  show "chapterStr quiet_env (Finite False 2 0) = ''2''"
    unfolding y t by simp
qed

lemma chapter_paths:
  "chapter_path quiet_env ''out'' chapter_titles chapter_numbers ''a'' = ''out/T - Chapter 1.cbz''"
  "chapter_path quiet_env ''out'' chapter_titles chapter_numbers ''b'' = ''out/T - Chapter 2.cbz''"
proof -
  have s: "sanitizeFilename ''T'' = ''T''"
    by (simp add: sanitizeFilename_def invalidChars_def ReplaceAll_char_def TrimRight_def)
  have j: "path_join quiet_env = (\<lambda>a b. a @ ''/'' @ b)" by (simp add: quiet_env_def)
  show "chapter_path quiet_env ''out'' chapter_titles chapter_numbers ''a'' = ''out/T - Chapter 1.cbz''"
    unfolding chapter_path_def GetCBZFilename_def Let_def chapter_titles_def chapter_numbers_def
    by (simp add: s j chapterStr_small del: One_nat_def)
  show "chapter_path quiet_env ''out'' chapter_titles chapter_numbers ''b'' = ''out/T - Chapter 2.cbz''"
    unfolding chapter_path_def GetCBZFilename_def Let_def chapter_titles_def chapter_numbers_def
    by (simp add: s j chapterStr_small del: One_nat_def)
qed

lemma cbz_paths:
  "cbz_path ''out/T - Chapter 1.cbz'' = ''out/T - Chapter 1.cbz''"
  "cbz_path ''out/T - Chapter 2.cbz'' = ''out/T - Chapter 2.cbz''"
  "path_dir quiet_env ''out/T - Chapter 1.cbz'' = ''out''"
  "path_dir quiet_env ''out/T - Chapter 2.cbz'' = ''out''"
  by (simp_all add: cbz_path_def HasSuffix_def ToLower_def ToLower_char_def quiet_env_def simple_dir_def)

lemma taken_fs_runs:
  "ArchiveMultipleChapters quiet_env ''out'' two_chapters chapter_titles chapter_numbers None taken_fs ()
     = (Some (ArchiveChapterFailed ''a'' (AlreadyExists ''out/T - Chapter 1.cbz'')), taken_fs, ())"
  "ArchiveMultipleChapters quiet_env ''out'' [(''a'', [\<lparr>Data = ''p1'', Page = 1\<rparr>])]
     chapter_titles chapter_numbers None taken_fs ()
     = (Some (ArchiveChapterFailed ''a'' (AlreadyExists ''out/T - Chapter 1.cbz'')), taken_fs, ())"
  "fst (ArchiveMultipleChapters quiet_env ''out'' [(''b'', [\<lparr>Data = ''p2'', Page = 1\<rparr>])]
            chapter_titles chapter_numbers None taken_fs ()) = None"
proof -
  have m: "MkdirAll quiet_env ''out'' taken_fs = Inr taken_fs"
    by (simp add: MkdirAll_def taken_fs_def)
  have a: "ArchiveCBZ quiet_env ''out/T - Chapter 1.cbz'' [\<lparr>Data = ''p1'', Page = 1\<rparr>] cp taken_fs ()
      = (Some (AlreadyExists ''out/T - Chapter 1.cbz''), taken_fs, ())" for cp
    unfolding ArchiveCBZ_def Let_def cbz_paths
    by (simp add: MkdirAll_def OpenFile_excl_def IsExist_def taken_fs_def)
  have b: "fst (ArchiveCBZ quiet_env ''out/T - Chapter 2.cbz'' [\<lparr>Data = ''p2'', Page = 1\<rparr>] cp taken_fs ())
      = None" for cp
    unfolding ArchiveCBZ_def Let_def cbz_paths
    by (simp add: MkdirAll_def OpenFile_excl_def IsExist_def taken_fs_def quiet_env_def
          simple_dir_def split: prod.splits)
  show "ArchiveMultipleChapters quiet_env ''out'' two_chapters chapter_titles chapter_numbers None taken_fs ()
     = (Some (ArchiveChapterFailed ''a'' (AlreadyExists ''out/T - Chapter 1.cbz'')), taken_fs, ())"
    by (simp add: ArchiveMultipleChapters_def two_chapters_def m chapter_paths a Let_def)
  show "ArchiveMultipleChapters quiet_env ''out'' [(''a'', [\<lparr>Data = ''p1'', Page = 1\<rparr>])]
     chapter_titles chapter_numbers None taken_fs ()
     = (Some (ArchiveChapterFailed ''a'' (AlreadyExists ''out/T - Chapter 1.cbz'')), taken_fs, ())"
    by (simp add: ArchiveMultipleChapters_def m chapter_paths a Let_def)
  let ?cp = "Some (\<lambda>page fileProgress. report None page (0 + fileProgress))"
  obtain e fs' st' where r:
    "ArchiveCBZ quiet_env ''out/T - Chapter 2.cbz'' [\<lparr>Data = ''p2'', Page = 1\<rparr>] ?cp taken_fs () = (e, fs', st')"
    by (cases "ArchiveCBZ quiet_env ''out/T - Chapter 2.cbz'' [\<lparr>Data = ''p2'', Page = 1\<rparr>] ?cp taken_fs ()")
  have en: "e = None" using b[of ?cp] r by simp
  show "fst (ArchiveMultipleChapters quiet_env ''out'' [(''b'', [\<lparr>Data = ''p2'', Page = 1\<rparr>])]
            chapter_titles chapter_numbers None taken_fs ()) = None"
    using r en by (simp add: ArchiveMultipleChapters_def m chapter_paths Let_def)
qed

theorem ArchiveMultipleChapters_first_error_witness:
  "[(''a'', [\<lparr>Data = ''p1'', Page = 1\<rparr>])] \<noteq> []
   \<and> fst (ArchiveMultipleChapters quiet_env ''out'' [(''a'', [\<lparr>Data = ''p1'', Page = 1\<rparr>])]
          chapter_titles chapter_numbers None taken_fs ())
       = Some (ArchiveChapterFailed ''a'' (AlreadyExists ''out/T - Chapter 1.cbz''))
   \<and> ArchiveMultipleChapters quiet_env ''out''
         ([(''a'', [\<lparr>Data = ''p1'', Page = 1\<rparr>])] @ [(''b'', [\<lparr>Data = ''p2'', Page = 1\<rparr>])])
         chapter_titles chapter_numbers None taken_fs ()
       = ArchiveMultipleChapters quiet_env ''out'' [(''a'', [\<lparr>Data = ''p1'', Page = 1\<rparr>])]
         chapter_titles chapter_numbers None taken_fs ()
   \<and> fst (ArchiveMultipleChapters quiet_env ''out'' [(''b'', [\<lparr>Data = ''p2'', Page = 1\<rparr>])]
          chapter_titles chapter_numbers None taken_fs ()) = None
   \<and> fs_files (fst (snd (ArchiveMultipleChapters quiet_env ''out'' [(''b'', [\<lparr>Data = ''p2'', Page = 1\<rparr>])]
          chapter_titles chapter_numbers None taken_fs ()))) ''out/T - Chapter 2.cbz''
       = Some (Archive [(''001.jpg'', ''p2'')])
   \<and> ArchiveMultipleChapters quiet_env ''out'' [(''b'', [\<lparr>Data = ''p2'', Page = 1\<rparr>])]
          chapter_titles chapter_numbers None taken_fs ()
       = (None, taken_fs\<lparr>fs_files := (fs_files taken_fs)(''out/T - Chapter 2.cbz'' \<mapsto>
                                        Archive [(''001.jpg'', ''p2'')])\<rparr>, ())
   \<and> ArchiveCBZ quiet_env ''out/T - Chapter 1.cbz'' [\<lparr>Data = ''p1'', Page = 1\<rparr>] None
          (taken_fs\<lparr>fs_files := (fs_files taken_fs)(''out/T - Chapter 2.cbz'' \<mapsto>
                                        Archive [(''001.jpg'', ''p2'')])\<rparr>) ()
       = (Some (AlreadyExists ''out/T - Chapter 1.cbz''),
          taken_fs\<lparr>fs_files := (fs_files taken_fs)(''out/T - Chapter 2.cbz'' \<mapsto>
                                        Archive [(''001.jpg'', ''p2'')])\<rparr>, ())
   \<and> ArchiveMultipleChapters quiet_env ''out''
          ([(''b'', [\<lparr>Data = ''p2'', Page = 1\<rparr>])] @ [(''a'', [\<lparr>Data = ''p1'', Page = 1\<rparr>])])
          chapter_titles chapter_numbers None taken_fs ()
       = (Some (ArchiveChapterFailed ''a'' (AlreadyExists ''out/T - Chapter 1.cbz'')),
          taken_fs\<lparr>fs_files := (fs_files taken_fs)(''out/T - Chapter 2.cbz'' \<mapsto>
                                        Archive [(''001.jpg'', ''p2'')])\<rparr>, ())"
proof -
  let ?a = "[\<lparr>Data = ''p1'', Page = 1\<rparr>]" and ?b = "[\<lparr>Data = ''p2'', Page = 1\<rparr>]"
  let ?fs = "taken_fs\<lparr>fs_files := (fs_files taken_fs)(''out/T - Chapter 2.cbz'' \<mapsto>
                                        Archive [(''001.jpg'', ''p2'')])\<rparr>"
  have n: "entry_name 1 = ''001.jpg''" by code_simp
  have pa: "path_join quiet_env ''out''
      (GetCBZFilename quiet_env (case chapter_titles ''a'' of Some t \<Rightarrow> t | None \<Rightarrow> [])
        (case chapter_numbers ''a'' of Some n \<Rightarrow> n | None \<Rightarrow> Finite False 0 0) [])
      = ''out/T - Chapter 1.cbz''"
    using chapter_paths(1) by (simp add: chapter_path_def Let_def)
  have pb: "path_join quiet_env ''out''
      (GetCBZFilename quiet_env (case chapter_titles ''b'' of Some t \<Rightarrow> t | None \<Rightarrow> [])
        (case chapter_numbers ''b'' of Some n \<Rightarrow> n | None \<Rightarrow> Finite False 0 0) [])
      = ''out/T - Chapter 2.cbz''"
    using chapter_paths(2) by (simp add: chapter_path_def Let_def)
  have m: "MkdirAll quiet_env ''out'' taken_fs = Inr taken_fs"
    by (simp add: MkdirAll_def taken_fs_def)
  have ca: "can_archive quiet_env taken_fs (cbz_path ''out/T - Chapter 2.cbz'') (length ?b)"
    unfolding cbz_paths can_archive_def
    by (simp add: cbz_paths) (simp add: taken_fs_def quiet_env_def)
  have b1: "ArchiveCBZ quiet_env ''out/T - Chapter 2.cbz'' ?b cp taken_fs () = (None, ?fs, ())" for cp
    using ArchiveCBZ_ok[OF _ ca, of cp "()"] unfolding cbz_paths
    by (simp add: taken_fs_def insert_absorb n)
  have b: "ArchiveMultipleChapters quiet_env ''out'' [(''b'', ?b)]
          chapter_titles chapter_numbers None taken_fs () = (None, ?fs, ())"
    by (simp add: ArchiveMultipleChapters_def m chapter_paths b1 Let_def)
  have a: "ArchiveCBZ quiet_env ''out/T - Chapter 1.cbz'' ?a cp ?fs ()
      = (Some (AlreadyExists ''out/T - Chapter 1.cbz''), ?fs, ())" for cp
    unfolding ArchiveCBZ_def Let_def cbz_paths
    by (simp add: MkdirAll_def OpenFile_excl_def IsExist_def taken_fs_def)
  have r: "report None = (\<lambda>a b st. st)"
    by (intro ext) (simp add: report_def)
  show ?thesis
    using ArchiveMultipleChapters_first_error[where chapters = "[(''a'', ?a)]"
        and env = quiet_env and baseDir = "''out''" and titles = chapter_titles and nums = chapter_numbers
        and progress = None and fs = taken_fs and st = "()"
        and rest = "[(''b'', ?b)]"
        and e = "ArchiveChapterFailed ''a'' (AlreadyExists ''out/T - Chapter 1.cbz'')"
        and chapters' = "[(''b'', ?b)]" and k' = "''b''" and files' = ?b
        and pre = "[(''b'', ?b)]" and fsa = ?fs and sta = "()" and key = "''a''" and gfiles = ?a
        and r = "Some (AlreadyExists ''out/T - Chapter 1.cbz'')" and fsb = ?fs and stb = "()"
        and after = "[]"]
      taken_fs_runs(2) taken_fs_runs(3) b a
    by (simp add: pa pb cbz_paths n)
qed

text \<open>
  The claim as stated fails: with the container of chapter "a" already in place,
  ArchiveMultipleChapters returns the error of that group and never writes the
  container of chapter "b", which by itself would have been written.
\<close>

theorem ArchiveMultipleChapters_continue_counterexample:
  "ArchiveMultipleChapters quiet_env ''out'' two_chapters chapter_titles chapter_numbers None taken_fs ()
     = (Some (ArchiveChapterFailed ''a'' (AlreadyExists ''out/T - Chapter 1.cbz'')), taken_fs, ())
   \<and> fs_files taken_fs ''out/T - Chapter 2.cbz'' = None
   \<and> fst (ArchiveMultipleChapters quiet_env ''out'' [(''b'', [\<lparr>Data = ''p2'', Page = 1\<rparr>])]
            chapter_titles chapter_numbers None taken_fs ()) = None"
  using taken_fs_runs(1) taken_fs_runs(3) by (simp add: taken_fs_def)

section \<open>The downloader: the control structure\<close>

lemma gsum_split:
  assumes "j < length ps"
  shows "gsum f ps = f j (ps ! j) + (\<Sum>i \<in> {..<length ps} - {j}. f i (ps ! i))"
  using assms by (simp add: gsum_def sum.remove[of _ j])

lemma gsum_update:
  assumes "j < length ps"
  shows "gsum f (ps[j := v]) = f j v + (\<Sum>i \<in> {..<length ps} - {j}. f i (ps ! i))"
proof -
  have "gsum f (ps[j := v]) = f j ((ps[j := v]) ! j) + (\<Sum>i \<in> {..<length ps} - {j}. f i ((ps[j := v]) ! i))"
    using assms gsum_split[of j "ps[j := v]" f] by simp
  moreover have "(\<Sum>i \<in> {..<length ps} - {j}. f i ((ps[j := v]) ! i)) = (\<Sum>i \<in> {..<length ps} - {j}. f i (ps ! i))"
    by (rule sum.cong) auto
  ultimately show ?thesis using assms by simp
qed

lemma gsum_update_same:
  "j < length ps \<Longrightarrow> f j v = f j (ps ! j) \<Longrightarrow> gsum f (ps[j := v]) = gsum f ps"
  by (simp add: gsum_update gsum_split[of j ps f])

lemma gsum_update_add:
  "j < length ps \<Longrightarrow> f j (ps ! j) = 0 \<Longrightarrow> gsum f (ps[j := v]) = gsum f ps + f j v"
  by (simp add: gsum_update gsum_split[of j ps f] add.commute)

lemma gsum_update_sub:
  fixes f :: "nat \<Rightarrow> gpc \<Rightarrow> nat"
  shows "j < length ps \<Longrightarrow> f j v = 0 \<Longrightarrow> gsum f (ps[j := v]) = gsum f ps - f j (ps ! j)"
  by (simp add: gsum_update gsum_split[of j ps f])

lemma gsum_member_le:
  fixes f :: "nat \<Rightarrow> gpc \<Rightarrow> nat"
  shows "j < length ps \<Longrightarrow> f j (ps ! j) \<le> gsum f ps"
  by (simp add: gsum_split[of j ps f])

lemma gsum_replicate_zero:
  "f = (\<lambda>i pc. if P pc then 1 else (0::nat)) \<Longrightarrow> \<not> P v \<Longrightarrow> gsum f (replicate n v) = 0"
  by (simp add: gsum_def)

lemma holding_pos:
  "j < length (g_pc s) \<Longrightarrow> holding (g_pc s ! j) \<Longrightarrow> 0 < slots_held s"
  using gsum_member_le[of j "g_pc s" "\<lambda>i pc. if holding pc then 1 else 0"]
  by (simp add: slots_held_def)

lemma active_pos:
  "j < length (g_pc s) \<Longrightarrow> active (g_pc s ! j) \<Longrightarrow> 0 < active_count s"
  using gsum_member_le[of j "g_pc s" "\<lambda>i pc. if active pc then 1 else 0"]
  by (simp add: active_count_def)

lemma inv_struct_init: "inv_struct chapter (init chapter)"
  by (simp add: inv_struct_def init_def slots_held_def active_count_def gsum_def holding_def
      active_def phase_ok_def waiter_ok_def)

lemma go_step_cases:
  assumes "go_step net ch idx s = Some s'"
  obtains
    (c_fetch) "idx < length (g_pc s)" "g_pc s ! idx = G_fetch"
      "s' = s\<lparr>g_pc := (g_pc s)[idx := G_fetched]\<rparr>"
  | (c_send_err) err where "idx < length (g_pc s)" "g_pc s ! idx = G_fetched"
      "fetch_result net ch idx = Inl err" "errChan s = None"
      "s' = s\<lparr>g_pc := (g_pc s)[idx := G_notify],
              errChan := Some (PageError (Number (Pages ch ! idx)) err)\<rparr>"
  | (c_drop_err) err e where "idx < length (g_pc s)" "g_pc s ! idx = G_fetched"
      "fetch_result net ch idx = Inl err" "errChan s = Some e"
      "s' = s\<lparr>g_pc := (g_pc s)[idx := G_release]\<rparr>"
  | (c_send_panic) f where "idx < length (g_pc s)" "g_pc s ! idx = G_fetched"
      "fetch_result net ch idx = Inr f" "fileChan_closed s" "s' = s\<lparr>panicked := True\<rparr>"
  | (c_send_file) f where "idx < length (g_pc s)" "g_pc s ! idx = G_fetched"
      "fetch_result net ch idx = Inr f" "\<not> fileChan_closed s"
      "length (fileChan s) < length (Pages ch)"
      "s' = s\<lparr>g_pc := (g_pc s)[idx := G_notify], fileChan := fileChan s @ [f]\<rparr>"
  | (c_call) "idx < length (g_pc s)" "g_pc s ! idx = G_notify"
      "s' = s\<lparr>g_pc := (g_pc s)[idx := G_callback],
              calls := calls s @ [callback_args net ch idx]\<rparr>"
  | (c_return) "idx < length (g_pc s)" "g_pc s ! idx = G_callback"
      "s' = s\<lparr>g_pc := (g_pc s)[idx := G_release]\<rparr>"
  | (c_release) "idx < length (g_pc s)" "g_pc s ! idx = G_release" "0 < guard s"
      "s' = s\<lparr>g_pc := (g_pc s)[idx := G_exit], guard := guard s - 1\<rparr>"
  | (c_exit) "idx < length (g_pc s)" "g_pc s ! idx = G_exit" "0 < wg s"
      "s' = s\<lparr>g_pc := (g_pc s)[idx := G_gone], wg := wg s - 1\<rparr>"
  | (c_exit_panic) "idx < length (g_pc s)" "g_pc s ! idx = G_exit" "wg s = 0"
      "s' = s\<lparr>panicked := True\<rparr>"
proof -
  from assms have i: "idx < length (g_pc s)"
    by (auto simp: go_step_def split: if_splits)
  show ?thesis
  proof (cases "g_pc s ! idx")
    case G_idle
    then show ?thesis using assms i by (simp add: go_step_def)
  next
    case G_fetch
    then show ?thesis using assms i c_fetch by (simp add: go_step_def)
  next
    case G_fetched
    show ?thesis
    proof (cases "fetch_result net ch idx")
      case (Inl err)
      then show ?thesis
        using assms i G_fetched c_send_err[of err] c_drop_err[of err]
        by (cases "errChan s") (auto simp: go_step_def)
    next
      case (Inr f)
      then show ?thesis
        using assms i G_fetched c_send_panic[of f] c_send_file[of f]
        by (auto simp: go_step_def split: if_splits)
    qed
  next
    case G_notify
    then show ?thesis using assms i c_call by (simp add: go_step_def)
  next
    case G_callback
    then show ?thesis using assms i c_return by (simp add: go_step_def)
  next
    case G_release
    then show ?thesis using assms i c_release by (auto simp: go_step_def split: if_splits)
  next
    case G_exit
    then show ?thesis using assms i c_exit c_exit_panic by (auto simp: go_step_def split: if_splits)
  next
    case G_gone
    then show ?thesis using assms i by (simp add: go_step_def)
  qed
qed

lemma phase_ok_update:
  assumes "phase_ok ch s" and "m_pc s' = m_pc s" and "w_pc s' = w_pc s"
    and "g_pc s' = (g_pc s)[idx := v]" and "v \<noteq> G_idle" and "g_pc s ! idx \<noteq> G_idle"
    and "length (g_pc s) = length (Pages ch)"
  shows "phase_ok ch s'"
proof -
  have k: "((g_pc s)[idx := v] ! j = G_idle) = (g_pc s ! j = G_idle)" if "j < length (g_pc s)" for j
    using that assms(5,6) by (cases "j = idx") simp_all
  show ?thesis
    using assms(1,2,3,4,7) by (cases "m_pc s") (simp_all add: phase_ok_def k)
qed

lemma waiter_ok_update:
  assumes "waiter_ok s" and "w_pc s' = w_pc s" and "done_closed s' = done_closed s"
    and "fileChan_closed s' = fileChan_closed s" and "wg s' = wg s \<or> (0 < wg s \<and> wg s' = wg s - 1)"
  shows "waiter_ok s'"
  using assms by (cases "w_pc s") (auto simp: waiter_ok_def)

lemma counts_update:
  assumes "idx < length (g_pc s)" and "g_pc s' = (g_pc s)[idx := v]"
  shows "slots_held s' + (if holding (g_pc s ! idx) then 1 else 0) =
           slots_held s + (if holding v then 1 else 0)"
    and "active_count s' + (if active (g_pc s ! idx) then 1 else 0) =
           active_count s + (if active v then 1 else 0)"
proof -
  show "slots_held s' + (if holding (g_pc s ! idx) then 1 else 0) =
           slots_held s + (if holding v then 1 else 0)"
    unfolding slots_held_def assms(2)
    using assms(1) by (simp add: gsum_update gsum_split[of idx "g_pc s"])
  show "active_count s' + (if active (g_pc s ! idx) then 1 else 0) =
           active_count s + (if active v then 1 else 0)"
    unfolding active_count_def assms(2)
    using assms(1) by (simp add: gsum_update gsum_split[of idx "g_pc s"])
qed

lemma inv_struct_go_generic:
  assumes I: "inv_struct ch s" and i: "idx < length (g_pc s)"
    and a: "active (g_pc s ! idx)" and v: "v \<noteq> G_idle"
    and g: "g_pc s' = (g_pc s)[idx := v]"
    and m: "m_pc s' = m_pc s" "w_pc s' = w_pc s" "done_closed s' = done_closed s"
      "fileChan_closed s' = fileChan_closed s" "panicked s' = panicked s"
    and gd: "guard s' + (if holding (g_pc s ! idx) then 1 else 0) =
               guard s + (if holding v then 1 else 0)"
    and w: "wg s' + (if active (g_pc s ! idx) then 1 else 0) = wg s + (if active v then 1 else 0)"
    and le: "guard s' \<le> guard s" "wg s' \<le> wg s"
  shows "inv_struct ch s'"
proof -
  note J = I[unfolded inv_struct_def]
  note c = counts_update[OF i g]
  have pcs: "g_pc s ! idx \<noteq> G_idle" using a by (simp add: active_def)
  have p: "phase_ok ch s'"
    using J pcs v g m by (intro phase_ok_update[of "ch" s s' idx v]) simp_all
  have wgp: "0 < wg s"
    using active_pos[OF i a] J by simp
  have nw: "w_pc s = W_idle \<or> w_pc s = W_wait"
    using wgp J by (cases "w_pc s") (auto simp: waiter_ok_def)
  have wo: "waiter_ok s'"
    using J nw m by (auto simp: waiter_ok_def)
  have g1: "guard s' = slots_held s'" using gd c(1) J by linarith
  have g2: "wg s' = active_count s'" using w c(2) J by linarith
  show ?thesis
    unfolding inv_struct_def using J p wo g1 g2 le m g by simp
qed

lemma inv_struct_no_panic:
  assumes "inv_struct ch s" and "idx < length (g_pc s)" and "active (g_pc s ! idx)"
  shows "0 < wg s" and "\<not> fileChan_closed s"
proof -
  note J = assms(1)[unfolded inv_struct_def]
  show wgp: "0 < wg s" using active_pos[OF assms(2,3)] J by simp
  have nw: "w_pc s = W_idle \<or> w_pc s = W_wait"
    using wgp J by (cases "w_pc s") (auto simp: waiter_ok_def)
  then show "\<not> fileChan_closed s" using J by (auto simp: waiter_ok_def)
qed

lemma inv_struct_go:
  assumes "inv_struct ch s" and "go_step net ch idx s = Some s'"
  shows "inv_struct ch s'"
  using assms(2)
proof (cases rule: go_step_cases)
  case c_fetch
  then show ?thesis
    by (intro inv_struct_go_generic[OF assms(1), of idx G_fetched s']) (simp_all add: holding_def active_def)
next
  case (c_send_err err)
  then show ?thesis
    by (intro inv_struct_go_generic[OF assms(1), of idx G_notify s']) (simp_all add: holding_def active_def)
next
  case (c_drop_err err e)
  then show ?thesis
    by (intro inv_struct_go_generic[OF assms(1), of idx G_release s']) (simp_all add: holding_def active_def)
next
  case (c_send_panic f)
  then show ?thesis
    using inv_struct_no_panic[OF assms(1), of idx] by (simp add: active_def)
next
  case (c_send_file f)
  then show ?thesis
    by (intro inv_struct_go_generic[OF assms(1), of idx G_notify s']) (simp_all add: holding_def active_def)
next
  case c_call
  then show ?thesis
    by (intro inv_struct_go_generic[OF assms(1), of idx G_callback s']) (simp_all add: holding_def active_def)
next
  case c_return
  then show ?thesis
    by (intro inv_struct_go_generic[OF assms(1), of idx G_release s']) (simp_all add: holding_def active_def)
next
  case c_release
  then show ?thesis
    by (intro inv_struct_go_generic[OF assms(1), of idx G_exit s']) (simp_all add: holding_def active_def)
next
  case c_exit
  then show ?thesis
    by (intro inv_struct_go_generic[OF assms(1), of idx G_gone s']) (simp_all add: holding_def active_def)
next
  case c_exit_panic
  then show ?thesis
    using inv_struct_no_panic[OF assms(1), of idx] by (simp add: active_def)
qed

lemma counts_same:
  assumes "g_pc s' = g_pc s"
  shows "slots_held s' = slots_held s" and "active_count s' = active_count s"
  using assms by (simp_all add: slots_held_def active_count_def)

lemma waiter_ok_same:
  assumes "w_pc s' = w_pc s" and "wg s' = wg s" and "done_closed s' = done_closed s"
    and "fileChan_closed s' = fileChan_closed s"
  shows "waiter_ok s' = waiter_ok s"
  using assms by (cases "w_pc s") (simp_all add: waiter_ok_def)

lemma waiter_ok_start:
  assumes "waiter_ok s" and "w_pc s = W_idle" and "done_closed s' = done_closed s"
    and "fileChan_closed s' = fileChan_closed s" and "w_pc s' = W_idle \<or> w_pc s' = W_wait"
  shows "waiter_ok s'"
  using assms by (auto simp: waiter_ok_def)

lemma inv_struct_waiter:
  assumes "inv_struct ch s" and "waiter_step s = Some s'"
  shows "inv_struct ch s'"
proof -
  note J = assms(1)[unfolded inv_struct_def]
  have g: "g_pc s' = g_pc s" "guard s' = guard s" "wg s' = wg s" "m_pc s' = m_pc s"
    "panicked s' = panicked s" "w_pc s \<noteq> W_idle" "w_pc s' \<noteq> W_idle"
    using assms(2) by (auto simp: waiter_step_def split: wpc.splits if_splits)
  have p: "phase_ok ch s'"
    using J g by (cases "m_pc s") (simp_all add: phase_ok_def)
  have w: "waiter_ok s'"
    using J assms(2) by (auto simp: waiter_step_def waiter_ok_def split: wpc.splits if_splits)
  show ?thesis
    unfolding inv_struct_def using J g p w counts_same[OF g(1)] by simp
qed

lemma inv_struct_select:
  assumes "inv_struct ch s"
    and "select_err s = Some s' \<or> select_file s = Some s' \<or> select_done s = Some s'"
  shows "inv_struct ch s'"
proof -
  note J = assms(1)[unfolded inv_struct_def]
  have g: "g_pc s' = g_pc s" "guard s' = guard s" "wg s' = wg s" "w_pc s' = w_pc s"
    "panicked s' = panicked s" "done_closed s' = done_closed s" "fileChan_closed s' = fileChan_closed s"
    "m_pc s = M_select" "m_pc s' = M_select \<or> m_pc s' = M_drain"
    using assms(2)
    by (auto simp: select_err_def select_file_def select_done_def
          split: if_splits option.splits list.splits)
  have p: "phase_ok ch s'"
    using J g by (auto simp: phase_ok_def)
  have w: "waiter_ok s'" using J g waiter_ok_same[of s' s] by simp
  show ?thesis
    unfolding inv_struct_def using J g p w counts_same[OF g(1)] by simp
qed

lemma inv_struct_launch:
  assumes I: "inv_struct ch s" and m: "m_pc s = M_launch i" and i: "i < length (Pages ch)"
    and gd: "guard s < 5"
    and s': "s' = s\<lparr>guard := guard s + 1, wg := wg s + 1,
                     g_pc := (g_pc s)[i := G_fetch], m_pc := M_launch (Suc i)\<rparr>"
  shows "inv_struct ch s'"
proof -
  note J = I[unfolded inv_struct_def]
  have il: "i < length (g_pc s)" using J i by simp
  have old: "g_pc s ! i = G_idle" using J m i by (simp add: phase_ok_def)
  have g: "g_pc s' = (g_pc s)[i := G_fetch]" using s' by simp
  note c = counts_update[OF il g]
  have c1: "slots_held s' = slots_held s + 1" "active_count s' = active_count s + 1"
    using c old by (simp_all add: holding_def active_def)
  have k: "((g_pc s)[i := G_fetch] ! j = G_idle) = (Suc i \<le> j)" if "j < length (Pages ch)" for j
    using that J m il by (cases "j = i") (auto simp: phase_ok_def)
  have p: "phase_ok ch s'"
    using J m i k by (simp add: phase_ok_def s')
  have wi: "w_pc s = W_idle" using J m by (simp add: phase_ok_def)
  have w: "waiter_ok s'"
    using J wi by (intro waiter_ok_start[of s s']) (simp_all add: s')
  show ?thesis
    unfolding inv_struct_def using J p w c1 gd by (simp add: s')
qed

lemma inv_struct_main:
  assumes "inv_struct ch s" and "main_step ch s = Some s'"
  shows "inv_struct ch s'"
proof -
  note J = assms(1)[unfolded inv_struct_def]
  show ?thesis
  proof (cases "m_pc s")
    case M_start
    then have s': "s' = s\<lparr>m_pc := (if length (Pages ch) = 0 then M_done (Some [], None) else M_launch 0)\<rparr>"
      using assms(2) by (auto simp: main_step_def)
    have p: "phase_ok ch s'" using J M_start by (auto simp: phase_ok_def s')
    have w: "waiter_ok s'" using J waiter_ok_same[of s' s] by (simp add: s')
    show ?thesis
      unfolding inv_struct_def using J p w counts_same[of s' s] by (simp add: s')
  next
    case (M_launch i)
    show ?thesis
    proof (cases "i < length (Pages ch)")
      case True
      then have "guard s < 5 \<and> s' = s\<lparr>guard := guard s + 1, wg := wg s + 1,
                     g_pc := (g_pc s)[i := G_fetch], m_pc := M_launch (Suc i)\<rparr>"
        using assms(2) M_launch by (auto simp: main_step_def split: if_splits)
      then show ?thesis using inv_struct_launch[OF assms(1) M_launch True] by blast
    next
      case False
      then have s': "s' = s\<lparr>w_pc := W_wait, files_acc := [], m_pc := M_select\<rparr>"
        using assms(2) M_launch by (auto simp: main_step_def)
      have p: "phase_ok ch s'" using J M_launch False by (auto simp: phase_ok_def s')
      have wi: "w_pc s = W_idle" using J M_launch by (simp add: phase_ok_def)
      have w: "waiter_ok s'"
        using J wi by (intro waiter_ok_start[of s s']) (simp_all add: s')
      show ?thesis
        unfolding inv_struct_def using J p w counts_same[of s' s] by (simp add: s')
    qed
  next
    case M_select
    then show ?thesis using assms(2) by (simp add: main_step_def)
  next
    case M_drain
    then have g: "g_pc s' = g_pc s" "guard s' = guard s" "wg s' = wg s" "w_pc s' = w_pc s"
      "panicked s' = panicked s" "done_closed s' = done_closed s" "fileChan_closed s' = fileChan_closed s"
      "m_pc s' = M_drain \<or> m_pc s' = M_return"
      using assms(2) by (auto simp: main_step_def split: if_splits list.splits)
    have p: "phase_ok ch s'" using J g M_drain by (auto simp: phase_ok_def)
    have w: "waiter_ok s'" using J g waiter_ok_same[of s' s] by simp
    show ?thesis
      unfolding inv_struct_def using J g p w counts_same[OF g(1)] by simp
  next
    case M_return
    then have g: "g_pc s' = g_pc s" "guard s' = guard s" "wg s' = wg s" "w_pc s' = w_pc s"
      "panicked s' = panicked s" "done_closed s' = done_closed s" "fileChan_closed s' = fileChan_closed s"
      "\<exists>r. m_pc s' = M_done r"
      using assms(2) by (auto simp: main_step_def split: option.splits)
    have p: "phase_ok ch s'" using J g M_return by (auto simp: phase_ok_def)
    have w: "waiter_ok s'" using J g waiter_ok_same[of s' s] by simp
    show ?thesis
      unfolding inv_struct_def using J g p w counts_same[OF g(1)] by simp
  next
    case (M_done r)
    then show ?thesis using assms(2) by (simp add: main_step_def)
  qed
qed

lemma inv_struct_step:
  assumes "inv_struct ch s" and "step net ch a s = Some s'"
  shows "inv_struct ch s'"
proof (cases a)
  case MainStep
  then show ?thesis using assms inv_struct_main by (auto simp: step_def split: if_splits)
next
  case SelectErr
  then show ?thesis using assms inv_struct_select[of "ch" s s'] by (auto simp: step_def split: if_splits)
next
  case SelectFile
  then show ?thesis using assms inv_struct_select[of "ch" s s'] by (auto simp: step_def split: if_splits)
next
  case SelectDone
  then show ?thesis using assms inv_struct_select[of "ch" s s'] by (auto simp: step_def split: if_splits)
next
  case (GoStep idx)
  then show ?thesis using assms inv_struct_go by (auto simp: step_def split: if_splits)
next
  case WaiterStep
  then show ?thesis using assms inv_struct_waiter by (auto simp: step_def split: if_splits)
qed

lemma run_append:
  "run net ch (as @ bs) s = (case run net ch as s of None \<Rightarrow> None | Some s' \<Rightarrow> run net ch bs s')"
  by (induction as arbitrary: s) (auto split: option.splits)

lemma run_invariant:
  assumes "\<And>s a s'. P s \<Longrightarrow> step net ch a s = Some s' \<Longrightarrow> P s'"
    and "P s" and "run net ch acts s = Some t"
  shows "P t"
  using assms(2,3)
proof (induction acts arbitrary: s)
  case Nil
  then show ?case by simp
next
  case (Cons a acts)
  then show ?case using assms(1) by (auto split: option.splits)
qed

lemma reachable_inv_struct:
  assumes "reachable net ch s"
  shows "inv_struct ch s"
proof -
  from assms obtain acts where r: "run net ch acts (init ch) = Some s"
    by (auto simp: reachable_def)
  show ?thesis
    using run_invariant[of "inv_struct ch" net "ch", OF _ inv_struct_init r] inv_struct_step
    by blast
qed

section \<open>The downloader: a failed page\<close>

text \<open>
  C2 does not hold of the code. With two pages of which the second fails, under the
  schedule in which both goroutines end and \<open>done\<close> is closed before the caller reaches
  its \<open>select\<close>, the \<open>select\<close> may take the case of \<open>done\<close> although \<open>errChan\<close> holds the
  error: FetchChapter then returns the file of the first page and no error. When the
  \<open>select\<close> takes the case of \<open>errChan\<close> instead, it returns nil and the error.
\<close>

theorem FetchChapter_partial_list:
  "\<not> fetch_ok second_fails two_pages 1
   \<and> FetchChapter second_fails two_pages (goroutines_first SelectDone)
       = Some (Some [\<lparr>Data = ''data'', Page = 1\<rparr>], None)
   \<and> FetchChapter second_fails two_pages (goroutines_first SelectErr)
       = Some (None, Some (PageError 2 (OS (EIO ''404''))))"
  by code_simp

section \<open>The downloader: files, errors and the result\<close>

lemma sent_files_update:
  assumes "idx < length (g_pc s)" and "g_pc s' = (g_pc s)[idx := v]"
  shows "sent_files net ch (g_pc s') + file_sent net ch idx (g_pc s ! idx) =
         sent_files net ch (g_pc s) + file_sent net ch idx v"
  unfolding sent_files_def assms(2)
  using assms(1) by (simp add: gsum_update gsum_split[of idx "g_pc s"])

lemma result_ok_open:
  assumes "result_ok ch s" and "\<not> fileChan_closed s" and "0 < length (Pages ch)"
    and "m_pc s' = m_pc s" and "files_acc s' = files_acc s" and "downloadErr s' = downloadErr s"
  shows "result_ok ch s'"
  using assms by (cases "m_pc s") (simp_all add: result_ok_def)

lemma inv_data_go_generic:
  assumes D: "inv_data net ch s" and i: "idx < length (g_pc s)" and n: "idx < length (Pages ch)"
    and o: "\<not> fileChan_closed s"
    and g: "g_pc s' = (g_pc s)[idx := v]"
    and m: "m_pc s' = m_pc s" "files_acc s' = files_acc s" "downloadErr s' = downloadErr s"
    and c: "mset (fileChan s') + file_sent net ch idx (g_pc s ! idx) =
            mset (fileChan s) + file_sent net ch idx v"
    and e: "errChan s' = errChan s \<or> \<not> fetch_ok net ch idx"
  shows "inv_data net ch s'"
proof -
  note J = D[unfolded inv_data_def]
  note u = sent_files_update[OF i g, of net "ch"]
  have "mset (files_acc s') + mset (fileChan s') + file_sent net ch idx (g_pc s ! idx) =
        sent_files net ch (g_pc s') + file_sent net ch idx (g_pc s ! idx)"
    using J u c m by (simp add: add.assoc)
  then have a: "mset (files_acc s') + mset (fileChan s') = sent_files net ch (g_pc s')"
    by simp
  have b: "errChan s' \<noteq> None \<or> downloadErr s' \<noteq> None \<longrightarrow>
         (\<exists>idx < length (Pages ch). \<not> fetch_ok net ch idx)"
    using J e m n by auto
  have pos: "0 < length (Pages ch)" using n by (cases "Pages ch") simp_all
  have r: "result_ok ch s'"
    using J o pos m by (intro result_ok_open[of "ch" s s']) simp_all
  show ?thesis unfolding inv_data_def using a b r by blast
qed

lemma file_sent_simps:
  "\<not> past_send pc \<Longrightarrow> file_sent net ch idx pc = {#}"
  "fetch_result net ch idx = Inl err \<Longrightarrow> file_sent net ch idx pc = {#}"
  "fetch_result net ch idx = Inr f \<Longrightarrow> past_send pc \<Longrightarrow> file_sent net ch idx pc = {#f#}"
  "past_send pc = past_send pc' \<Longrightarrow> file_sent net ch idx pc = file_sent net ch idx pc'"
  by (auto simp: file_sent_def split: sum.splits)

lemma inv_data_go:
  assumes S: "inv_struct ch s" and D: "inv_data net ch s" and st: "go_step net ch idx s = Some s'"
  shows "inv_data net ch s'"
proof -
  from st have i: "idx < length (g_pc s)"
    by (auto simp: go_step_def split: if_splits)
  have n: "idx < length (Pages ch)" using i S by (simp add: inv_struct_def)
  have act: "active (g_pc s ! idx)"
    using st i by (auto simp: go_step_def active_def split: if_splits)
  note np = inv_struct_no_panic[OF S i act]
  from st show ?thesis
  proof (cases rule: go_step_cases)
    case c_fetch
    then show ?thesis
      using np by (intro inv_data_go_generic[OF D i n, of s' G_fetched])
        (simp_all add: file_sent_simps(1) past_send_def)
  next
    case (c_send_err err)
    then show ?thesis
      using np by (intro inv_data_go_generic[OF D i n, of s' G_notify])
        (simp_all add: file_sent_simps(2) fetch_ok_def)
  next
    case (c_drop_err err e)
    then show ?thesis
      using np by (intro inv_data_go_generic[OF D i n, of s' G_release])
        (simp_all add: file_sent_simps(2))
  next
    case (c_send_panic f)
    then show ?thesis using np by simp
  next
    case (c_send_file f)
    then show ?thesis
      using np by (intro inv_data_go_generic[OF D i n, of s' G_notify])
        (simp_all add: file_sent_simps(1) file_sent_simps(3) past_send_def)
  next
    case c_call
    then show ?thesis
      using np by (intro inv_data_go_generic[OF D i n, of s' G_callback])
        (simp_all add: file_sent_simps(4)[of G_notify G_callback] past_send_def)
  next
    case c_return
    then show ?thesis
      using np by (intro inv_data_go_generic[OF D i n, of s' G_release])
        (simp_all add: file_sent_simps(4)[of G_callback G_release] past_send_def)
  next
    case c_release
    then show ?thesis
      using np by (intro inv_data_go_generic[OF D i n, of s' G_exit])
        (simp_all add: file_sent_simps(4)[of G_release G_exit] past_send_def)
  next
    case c_exit
    then show ?thesis
      using np by (intro inv_data_go_generic[OF D i n, of s' G_gone])
        (simp_all add: file_sent_simps(4)[of G_exit G_gone] past_send_def)
  next
    case c_exit_panic
    then show ?thesis using np by simp
  qed
qed

lemma inv_data_same_goroutines:
  assumes D: "inv_data net ch s" and g: "g_pc s' = g_pc s"
    and f: "mset (files_acc s') + mset (fileChan s') = mset (files_acc s) + mset (fileChan s)"
    and e: "errChan s' \<noteq> None \<or> downloadErr s' \<noteq> None \<longrightarrow>
            errChan s \<noteq> None \<or> downloadErr s \<noteq> None"
    and r: "result_ok ch s'"
  shows "inv_data net ch s'"
  using assms unfolding inv_data_def by auto

lemma result_ok_same:
  assumes "result_ok ch s" and "m_pc s' = m_pc s" and "files_acc s' = files_acc s"
    and "downloadErr s' = downloadErr s" and "fileChan s' = fileChan s"
    and "fileChan_closed s \<longrightarrow> fileChan_closed s'"
  shows "result_ok ch s'"
proof (cases "m_pc s")
  case (M_done r)
  then show ?thesis
    using assms by (cases "downloadErr s") (auto simp: result_ok_def)
qed (use assms in \<open>simp_all add: result_ok_def\<close>)

lemma inv_data_waiter:
  assumes S: "inv_struct ch s" and D: "inv_data net ch s" and st: "waiter_step s = Some s'"
  shows "inv_data net ch s'"
proof -
  have g: "g_pc s' = g_pc s" "files_acc s' = files_acc s" "fileChan s' = fileChan s"
    "errChan s' = errChan s" "downloadErr s' = downloadErr s" "m_pc s' = m_pc s"
    "fileChan_closed s \<longrightarrow> fileChan_closed s'"
    using st by (auto simp: waiter_step_def split: wpc.splits if_splits)
  have r: "result_ok ch s'"
    using D g by (intro result_ok_same[of "ch" s s']) (simp_all add: inv_data_def)
  show ?thesis
    using g r by (intro inv_data_same_goroutines[OF D]) simp_all
qed

lemma inv_data_select:
  assumes S: "inv_struct ch s" and D: "inv_data net ch s"
    and st: "select_err s = Some s' \<or> select_file s = Some s' \<or> select_done s = Some s'"
  shows "inv_data net ch s'"
proof -
  have g: "g_pc s' = g_pc s" "m_pc s = M_select"
    "mset (files_acc s') + mset (fileChan s') = mset (files_acc s) + mset (fileChan s)"
    "errChan s' \<noteq> None \<or> downloadErr s' \<noteq> None \<longrightarrow> errChan s \<noteq> None \<or> downloadErr s \<noteq> None"
    "m_pc s' = M_drain \<or> (m_pc s' = M_select \<and> downloadErr s' = downloadErr s)"
    using st
    by (auto simp: select_err_def select_file_def select_done_def
          split: if_splits option.splits list.splits)
  have r: "result_ok ch s'"
    using D g by (auto simp: inv_data_def result_ok_def)
  show ?thesis
    using g r by (intro inv_data_same_goroutines[OF D]) simp_all
qed

lemma inv_data_main:
  assumes S: "inv_struct ch s" and D: "inv_data net ch s" and st: "main_step ch s = Some s'"
  shows "inv_data net ch s'"
proof -
  note J = S[unfolded inv_struct_def]
  note K = D[unfolded inv_data_def]
  show ?thesis
  proof (cases "m_pc s")
    case M_start
    then have s': "s' = s\<lparr>m_pc := (if length (Pages ch) = 0 then M_done (Some [], None) else M_launch 0)\<rparr>"
      using st by (auto simp: main_step_def)
    have r: "result_ok ch s'" using K M_start by (auto simp: result_ok_def s')
    show ?thesis using r by (intro inv_data_same_goroutines[OF D]) (simp_all add: s')
  next
    case (M_launch i)
    show ?thesis
    proof (cases "i < length (Pages ch)")
      case True
      then have s': "s' = s\<lparr>guard := guard s + 1, wg := wg s + 1,
                     g_pc := (g_pc s)[i := G_fetch], m_pc := M_launch (Suc i)\<rparr>"
        using st M_launch by (auto simp: main_step_def split: if_splits)
      have il: "i < length (g_pc s)" using J True by simp
      have old: "g_pc s ! i = G_idle" using J M_launch True by (simp add: phase_ok_def)
      have g: "g_pc s' = (g_pc s)[i := G_fetch]" by (simp add: s')
      note u = sent_files_update[OF il g, of net "ch"]
      have sf: "sent_files net ch (g_pc s') = sent_files net ch (g_pc s)"
        using u old by (simp add: file_sent_simps(1) past_send_def)
      have r: "result_ok ch s'" using K M_launch by (auto simp: result_ok_def s')
      show ?thesis
        unfolding inv_data_def using K sf r by (simp add: s')
    next
      case False
      then have s': "s' = s\<lparr>w_pc := W_wait, files_acc := [], m_pc := M_select\<rparr>"
        using st M_launch by (auto simp: main_step_def)
      have e: "files_acc s = []" "downloadErr s = None" using K M_launch by (simp_all add: result_ok_def)
      have r: "result_ok ch s'" using e by (simp add: result_ok_def s')
      show ?thesis using r e by (intro inv_data_same_goroutines[OF D]) (simp_all add: s')
    qed
  next
    case M_select
    then show ?thesis using st by (simp add: main_step_def)
  next
    case M_drain
    then have g: "g_pc s' = g_pc s"
      "mset (files_acc s') + mset (fileChan s') = mset (files_acc s) + mset (fileChan s)"
      "errChan s' = errChan s" "downloadErr s' = downloadErr s"
      "m_pc s' = M_drain \<or> (m_pc s' = M_return \<and> fileChan s' = [] \<and> fileChan_closed s')"
      using st by (auto simp: main_step_def split: if_splits list.splits)
    have r: "result_ok ch s'" using g by (auto simp: result_ok_def)
    show ?thesis using g r by (intro inv_data_same_goroutines[OF D]) simp_all
  next
    case M_return
    have n: "0 < length (Pages ch)" using J M_return by (simp add: phase_ok_def)
    have c: "fileChan s = []" "fileChan_closed s" using K M_return by (simp_all add: result_ok_def)
    have g: "g_pc s' = g_pc s" "files_acc s' = files_acc s" "fileChan s' = fileChan s"
      "errChan s' = errChan s" "downloadErr s' = downloadErr s" "fileChan_closed s' = fileChan_closed s"
      "m_pc s' = M_done (case downloadErr s of
                  Some err \<Rightarrow> (None, Some err)
                | None \<Rightarrow> (Some (sort_key Page (files_acc s)), None))"
      using st M_return by (auto simp: main_step_def split: option.splits)
    have r: "result_ok ch s'"
      using g n c by (cases "downloadErr s") (simp_all add: result_ok_def)
    show ?thesis using g r by (intro inv_data_same_goroutines[OF D]) simp_all
  next
    case (M_done r)
    then show ?thesis using st by (simp add: main_step_def)
  qed
qed

lemma inv_both_step:
  assumes "inv_struct ch s \<and> inv_data net ch s" and "step net ch a s = Some s'"
  shows "inv_struct ch s' \<and> inv_data net ch s'"
proof -
  have S: "inv_struct ch s" and D: "inv_data net ch s" using assms(1) by auto
  have "inv_data net ch s'"
  proof (cases a)
    case MainStep
    then show ?thesis using assms(2) inv_data_main[OF S D] by (auto simp: step_def split: if_splits)
  next
    case SelectErr
    then show ?thesis using assms(2) inv_data_select[OF S D, of s'] by (auto simp: step_def split: if_splits)
  next
    case SelectFile
    then show ?thesis using assms(2) inv_data_select[OF S D, of s'] by (auto simp: step_def split: if_splits)
  next
    case SelectDone
    then show ?thesis using assms(2) inv_data_select[OF S D, of s'] by (auto simp: step_def split: if_splits)
  next
    case (GoStep idx)
    then show ?thesis using assms(2) inv_data_go[OF S D] by (auto simp: step_def split: if_splits)
  next
    case WaiterStep
    then show ?thesis using assms(2) inv_data_waiter[OF S D] by (auto simp: step_def split: if_splits)
  qed
  then show ?thesis using inv_struct_step[OF S assms(2)] by simp
qed

lemma inv_data_init: "inv_data net ch (init ch)"
  by (simp add: inv_data_def init_def sent_files_def gsum_def file_sent_simps(1) past_send_def
      result_ok_def)

lemma reachable_inv_data:
  assumes "reachable net ch s"
  shows "inv_data net ch s"
proof -
  from assms obtain acts where r: "run net ch acts (init ch) = Some s"
    by (auto simp: reachable_def)
  have "inv_struct ch (init ch) \<and> inv_data net ch (init ch)"
    using inv_struct_init inv_data_init by simp
  from run_invariant[of "\<lambda>s. inv_struct ch s \<and> inv_data net ch s" net "ch", OF _ this r]
  show ?thesis using inv_both_step by blast
qed

lemma gsum_zero:
  "(\<And>i. i < length ps \<Longrightarrow> f i (ps ! i) = 0) \<Longrightarrow> gsum f ps = 0"
  by (simp add: gsum_def)

lemma gsum_cong:
  "(\<And>i. i < length ps \<Longrightarrow> f i (ps ! i) = g i (ps ! i)) \<Longrightarrow> gsum f ps = gsum g ps"
  by (simp add: gsum_def)

lemma gsum_mono:
  fixes f g :: "nat \<Rightarrow> gpc \<Rightarrow> nat"
  shows "(\<And>i. i < length ps \<Longrightarrow> f i (ps ! i) \<le> g i (ps ! i)) \<Longrightarrow> gsum f ps \<le> gsum g ps"
  unfolding gsum_def by (rule sum_mono) simp

lemma sum_singletons: "(\<Sum>i < n. {#g i#}) = mset (map g [0..<n])"
  by (induction n) simp_all

lemma all_gone:
  assumes S: "inv_struct ch s" and c: "fileChan_closed s"
  shows "\<forall>idx < length (Pages ch). g_pc s ! idx = G_gone" and "guard s = 0"
proof -
  note J = S[unfolded inv_struct_def]
  have w: "w_pc s = W_gone" using J c by (cases "w_pc s") (simp_all add: waiter_ok_def)
  then have z: "active_count s = 0" using J by (simp add: waiter_ok_def)
  have na: "\<not> active (g_pc s ! idx)" if "idx < length (Pages ch)" for idx
    using active_pos[of idx s] that z J by auto
  have ni: "g_pc s ! idx \<noteq> G_idle" if "idx < length (Pages ch)" for idx
    using J w that by (cases "m_pc s") (auto simp: phase_ok_def)
  show g: "\<forall>idx < length (Pages ch). g_pc s ! idx = G_gone"
    using na ni by (auto simp: active_def)
  have "slots_held s = 0"
    unfolding slots_held_def using g J by (intro gsum_zero) (simp add: holding_def)
  then show "guard s = 0" using J by simp
qed

lemma fetched_ok:
  assumes "fetch_ok net ch idx"
  shows "fetch_result net ch idx = Inr (fetched net ch idx)"
  using assms by (auto simp: fetch_ok_def fetched_def split: sum.splits)

lemma Page_fetched: "Page (fetched net ch idx) = uint_of_int64 (Number (Pages ch ! idx))"
  by (auto simp: fetched_def fetch_result_def FetchFile_def Let_def
        split: sum.splits http_response.splits)

lemma sent_files_all:
  assumes "length ps = length (Pages ch)" and "\<forall>idx < length (Pages ch). ps ! idx = G_gone"
    and "\<forall>idx < length (Pages ch). fetch_ok net ch idx"
  shows "sent_files net ch ps = mset (map (fetched net ch) [0..<length (Pages ch)])"
proof -
  have "file_sent net ch i (ps ! i) = {#fetched net ch i#}" if "i < length ps" for i
  proof -
    have i: "i < length (Pages ch)" using that assms(1) by simp
    have g: "ps ! i = G_gone" using assms(2) i by blast
    have o: "fetch_result net ch i = Inr (fetched net ch i)" using assms(3) i fetched_ok by blast
    show ?thesis unfolding g by (rule file_sent_simps(3)[OF o]) (simp add: past_send_def)
  qed
  then have "sent_files net ch ps = gsum (\<lambda>i pc. {#fetched net ch i#}) ps"
    unfolding sent_files_def by (rule gsum_cong)
  also have "\<dots> = mset (map (fetched net ch) [0..<length (Pages ch)])"
    using assms(1) by (simp add: gsum_def sum_singletons)
  finally show ?thesis .
qed

lemma page_numbers:
  "map (\<lambda>idx. Page (fetched net ch idx)) [0..<length (Pages ch)] =
   map (\<lambda>p. uint_of_int64 (Number p)) (Pages ch)"
  by (rule nth_equalityI) (simp_all add: Page_fetched)

lemma FetchChapter_reaches:
  assumes "FetchChapter net ch acts = Some r"
  shows "\<exists>s. reachable net ch s \<and> m_pc s = M_done r"
  using assms by (auto simp: FetchChapter_def reachable_def split: option.splits mpc.splits)

lemma all_succeed_result:
  assumes ok: "\<forall>idx < length (Pages ch). fetch_ok net ch idx"
    and r: "reachable net ch s" and d: "m_pc s = M_done r"
  shows "\<exists>fs. r = (Some fs, None) \<and> mset fs = mset (map (fetched net ch) [0..<length (Pages ch)])
           \<and> sorted (map Page fs)"
proof -
  note S = reachable_inv_struct[OF r]
  note D = reachable_inv_data[OF r]
  note K = D[unfolded inv_data_def]
  show ?thesis
  proof (cases "length (Pages ch) = 0")
    case True
    then show ?thesis using K d by (simp add: result_ok_def)
  next
    case False
    then have c: "fileChan s = []" "fileChan_closed s"
      and rr: "r = (case downloadErr s of
                  Some err \<Rightarrow> (None, Some err)
                | None \<Rightarrow> (Some (sort_key Page (files_acc s)), None))"
      using K d by (simp_all add: result_ok_def)
    have ne: "downloadErr s = None" using K ok by auto
    have l: "length (g_pc s) = length (Pages ch)" using S by (simp add: inv_struct_def)
    have "mset (files_acc s) = sent_files net ch (g_pc s)" using K c by simp
    also have "\<dots> = mset (map (fetched net ch) [0..<length (Pages ch)])"
      using sent_files_all[OF l all_gone(1)[OF S c(2)] ok] .
    finally have m: "mset (files_acc s) = mset (map (fetched net ch) [0..<length (Pages ch)])" .
    show ?thesis
      using rr ne m by simp
  qed
qed

section \<open>The downloader: progress\<close>

lemma rank_update:
  assumes "idx < length (g_pc s)" and "g_pc s' = (g_pc s)[idx := v]"
  shows "gsum (\<lambda>i pc. g_rank pc) (g_pc s') + g_rank (g_pc s ! idx) =
         gsum (\<lambda>i pc. g_rank pc) (g_pc s) + g_rank v"
  unfolding assms(2)
  using assms(1) by (simp add: gsum_update gsum_split[of idx "g_pc s"])

lemma work_left_go:
  assumes "idx < length (g_pc s)" and "g_pc s' = (g_pc s)[idx := v]"
    and "g_rank v < g_rank (g_pc s ! idx)"
    and "length (fileChan s') \<le> length (fileChan s) + 1"
    and "w_pc s' = w_pc s" and "m_pc s' = m_pc s"
  shows "work_left ch s' < work_left ch s"
  using rank_update[OF assms(1,2)] assms(3-6) by (simp add: work_left_def)

lemma gsum_pos_ex:
  fixes f :: "nat \<Rightarrow> gpc \<Rightarrow> nat"
  assumes "0 < gsum f ps"
  shows "\<exists>i < length ps. 0 < f i (ps ! i)"
proof (rule ccontr)
  assume "\<not> (\<exists>i < length ps. 0 < f i (ps ! i))"
  then have "gsum f ps = 0" by (intro gsum_zero) auto
  then show False using assms by simp
qed

lemma gsum_less_length:
  fixes f :: "nat \<Rightarrow> gpc \<Rightarrow> nat"
  assumes "\<And>i. i < length ps \<Longrightarrow> f i (ps ! i) \<le> 1" and "idx < length ps" and "f idx (ps ! idx) = 0"
  shows "gsum f ps < length ps"
proof -
  have "(\<Sum>i \<in> {..<length ps} - {idx}. f i (ps ! i)) \<le> (\<Sum>i \<in> {..<length ps} - {idx}. 1)"
    by (rule sum_mono) (use assms(1) in auto)
  also have "\<dots> = length ps - 1" using assms(2) by simp
  finally have "(\<Sum>i \<in> {..<length ps} - {idx}. f i (ps ! i)) \<le> length ps - 1" .
  then show ?thesis
    using assms(2,3) by (simp add: gsum_split[of idx ps f])
qed

lemma size_sum_mset: "finite A \<Longrightarrow> size (\<Sum>i \<in> A. g i) = (\<Sum>i \<in> A. size (g i :: 'a multiset))"
  by (induction rule: finite_induct) simp_all

lemma size_sent_files:
  "size (sent_files net ch ps) = gsum (\<lambda>i pc. size (file_sent net ch i pc)) ps"
  by (simp add: sent_files_def gsum_def size_sum_mset)

lemma fileChan_room:
  assumes S: "inv_struct ch s" and D: "inv_data net ch s" and i: "idx < length (g_pc s)"
    and n: "\<not> past_send (g_pc s ! idx)"
  shows "length (fileChan s) < length (Pages ch)"
proof -
  have l: "length (g_pc s) = length (Pages ch)" using S by (simp add: inv_struct_def)
  have "length (files_acc s) + length (fileChan s) = size (sent_files net ch (g_pc s))"
    using D by (metis inv_data_def size_mset size_union)
  also have "\<dots> = gsum (\<lambda>i pc. size (file_sent net ch i pc)) (g_pc s)"
    by (rule size_sent_files)
  also have "\<dots> < length (g_pc s)"
  proof (rule gsum_less_length[OF _ i])
    show "size (file_sent net ch j (g_pc s ! j)) \<le> 1" for j
      by (simp add: file_sent_def split: sum.splits)
    show "size (file_sent net ch idx (g_pc s ! idx)) = 0"
      using n by (simp add: file_sent_simps(1))
  qed
  finally show ?thesis using l by simp
qed

lemma go_progress:
  assumes S: "inv_struct ch s" and D: "inv_data net ch s" and i: "idx < length (g_pc s)"
    and a: "active (g_pc s ! idx)"
  shows "\<exists>s'. go_step net ch idx s = Some s' \<and> work_left ch s' < work_left ch s"
proof -
  note np = inv_struct_no_panic[OF S i a]
  have nl: "\<not> length (g_pc s) \<le> idx" using i by simp
  show ?thesis
  proof (cases "g_pc s ! idx")
    case G_idle
    then show ?thesis using a by (simp add: active_def)
  next
    case G_fetch
    let ?s' = "s\<lparr>g_pc := (g_pc s)[idx := G_fetched]\<rparr>"
    have "go_step net ch idx s = Some ?s'" using nl G_fetch by (simp add: go_step_def)
    moreover have "work_left ch ?s' < work_left ch s"
      using G_fetch by (intro work_left_go[OF i, of _ G_fetched]) simp_all
    ultimately show ?thesis by blast
  next
    case G_fetched
    show ?thesis
    proof (cases "fetch_result net ch idx")
      case (Inl err)
      show ?thesis
      proof (cases "errChan s")
        case None
        let ?s' = "s\<lparr>g_pc := (g_pc s)[idx := G_notify],
              errChan := Some (PageError (Number (Pages ch ! idx)) err)\<rparr>"
        have "go_step net ch idx s = Some ?s'" using nl G_fetched Inl None by (simp add: go_step_def)
        moreover have "work_left ch ?s' < work_left ch s"
          using G_fetched by (intro work_left_go[OF i, of _ G_notify]) simp_all
        ultimately show ?thesis by blast
      next
        case (Some e)
        let ?s' = "s\<lparr>g_pc := (g_pc s)[idx := G_release]\<rparr>"
        have "go_step net ch idx s = Some ?s'" using nl G_fetched Inl Some by (simp add: go_step_def)
        moreover have "work_left ch ?s' < work_left ch s"
          using G_fetched by (intro work_left_go[OF i, of _ G_release]) simp_all
        ultimately show ?thesis by blast
      qed
    next
      case (Inr f)
      have room: "length (fileChan s) < length (Pages ch)"
        using G_fetched by (intro fileChan_room[OF S D i]) (simp add: past_send_def)
      let ?s' = "s\<lparr>g_pc := (g_pc s)[idx := G_notify], fileChan := fileChan s @ [f]\<rparr>"
      have "go_step net ch idx s = Some ?s'"
        using nl G_fetched Inr np room by (simp add: go_step_def)
      moreover have "work_left ch ?s' < work_left ch s"
        using G_fetched by (intro work_left_go[OF i, of _ G_notify]) simp_all
      ultimately show ?thesis by blast
    qed
  next
    case G_notify
    let ?s' = "s\<lparr>g_pc := (g_pc s)[idx := G_callback],
              calls := calls s @ [callback_args net ch idx]\<rparr>"
    have "go_step net ch idx s = Some ?s'" using nl G_notify by (simp add: go_step_def)
    moreover have "work_left ch ?s' < work_left ch s"
      using G_notify by (intro work_left_go[OF i, of _ G_callback]) simp_all
    ultimately show ?thesis by blast
  next
    case G_callback
    let ?s' = "s\<lparr>g_pc := (g_pc s)[idx := G_release]\<rparr>"
    have "go_step net ch idx s = Some ?s'" using nl G_callback by (simp add: go_step_def)
    moreover have "work_left ch ?s' < work_left ch s"
      using G_callback by (intro work_left_go[OF i, of _ G_release]) simp_all
    ultimately show ?thesis by blast
  next
    case G_release
    have gp: "0 < guard s"
      using holding_pos[OF i] G_release S by (simp add: inv_struct_def holding_def)
    let ?s' = "s\<lparr>g_pc := (g_pc s)[idx := G_exit], guard := guard s - 1\<rparr>"
    have "go_step net ch idx s = Some ?s'" using nl G_release gp by (simp add: go_step_def)
    moreover have "work_left ch ?s' < work_left ch s"
      using G_release by (intro work_left_go[OF i, of _ G_exit]) simp_all
    ultimately show ?thesis by blast
  next
    case G_exit
    let ?s' = "s\<lparr>g_pc := (g_pc s)[idx := G_gone], wg := wg s - 1\<rparr>"
    have "go_step net ch idx s = Some ?s'" using nl G_exit np by (simp add: go_step_def)
    moreover have "work_left ch ?s' < work_left ch s"
      using G_exit by (intro work_left_go[OF i, of _ G_gone]) simp_all
    ultimately show ?thesis by blast
  next
    case G_gone
    then show ?thesis using a by (simp add: active_def)
  qed
qed

lemma some_goroutine_progress:
  assumes S: "inv_struct ch s" and D: "inv_data net ch s" and w: "0 < wg s"
  shows "\<exists>a s'. step net ch a s = Some s' \<and> work_left ch s' < work_left ch s"
proof -
  have "0 < active_count s" using S w by (simp add: inv_struct_def)
  then obtain idx where i: "idx < length (g_pc s)" and "0 < (if active (g_pc s ! idx) then 1 else (0::nat))"
    unfolding active_count_def using gsum_pos_ex by blast
  then have a: "active (g_pc s ! idx)" by (simp split: if_splits)
  from go_progress[OF S D i a] obtain s' where
    "go_step net ch idx s = Some s'" "work_left ch s' < work_left ch s" by blast
  moreover have "\<not> panicked s" using S by (simp add: inv_struct_def)
  ultimately have "step net ch (GoStep idx) s = Some s' \<and> work_left ch s' < work_left ch s"
    by (simp add: step_def)
  then show ?thesis by blast
qed

lemma waiter_progress:
  assumes S: "inv_struct ch s" and D: "inv_data net ch s"
    and w: "w_pc s \<noteq> W_idle" "w_pc s \<noteq> W_gone"
  shows "\<exists>a s'. step net ch a s = Some s' \<and> work_left ch s' < work_left ch s"
proof -
  have np: "\<not> panicked s" using S by (simp add: inv_struct_def)
  show ?thesis
  proof (cases "w_pc s")
    case W_wait
    show ?thesis
    proof (cases "wg s = 0")
      case True
      let ?s' = "s\<lparr>w_pc := W_close_done\<rparr>"
      have "step net ch WaiterStep s = Some ?s'"
        using np W_wait True by (simp add: step_def waiter_step_def)
      moreover have "work_left ch ?s' < work_left ch s"
        using W_wait by (simp add: work_left_def)
      ultimately show ?thesis by blast
    next
      case False
      then show ?thesis using some_goroutine_progress[OF S D] by simp
    qed
  next
    case W_close_done
    let ?s' = "s\<lparr>done_closed := True, w_pc := W_close_fileChan\<rparr>"
    have "step net ch WaiterStep s = Some ?s'"
      using np W_close_done by (simp add: step_def waiter_step_def)
    moreover have "work_left ch ?s' < work_left ch s"
      using W_close_done by (simp add: work_left_def)
    ultimately show ?thesis by blast
  next
    case W_close_fileChan
    let ?s' = "s\<lparr>fileChan_closed := True, w_pc := W_gone\<rparr>"
    have "step net ch WaiterStep s = Some ?s'"
      using np W_close_fileChan by (simp add: step_def waiter_step_def)
    moreover have "work_left ch ?s' < work_left ch s"
      using W_close_fileChan by (simp add: work_left_def)
    ultimately show ?thesis by blast
  qed (use w in simp_all)
qed

lemma launch_progress:
  assumes S: "inv_struct ch s" and D: "inv_data net ch s" and m: "m_pc s = M_launch i"
  shows "\<exists>a s'. step net ch a s = Some s' \<and> work_left ch s' < work_left ch s"
proof -
  note J = S[unfolded inv_struct_def]
  have np: "\<not> panicked s" using J by simp
  show ?thesis
  proof (cases "i < length (Pages ch)")
    case True
    show ?thesis
    proof (cases "guard s < 5")
      case g: True
      let ?s' = "s\<lparr>guard := guard s + 1, wg := wg s + 1,
                     g_pc := (g_pc s)[i := G_fetch], m_pc := M_launch (Suc i)\<rparr>"
      have il: "i < length (g_pc s)" using J True by simp
      have old: "g_pc s ! i = G_idle" using J m True by (simp add: phase_ok_def)
      have "step net ch MainStep s = Some ?s'"
        using np m True g by (simp add: step_def main_step_def)
      moreover have "work_left ch ?s' < work_left ch s"
        using rank_update[OF il, of ?s' G_fetch] old m True by (simp add: work_left_def)
      ultimately show ?thesis by blast
    next
      case False
      then have "0 < slots_held s" using J by simp
      then obtain idx where ix: "idx < length (g_pc s)"
        and "0 < (if holding (g_pc s ! idx) then 1 else (0::nat))"
        unfolding slots_held_def using gsum_pos_ex by blast
      then have "active (g_pc s ! idx)" by (auto simp: holding_def active_def split: if_splits)
      then have "0 < wg s" using active_pos[OF ix] J by simp
      then show ?thesis by (rule some_goroutine_progress[OF S D])
    qed
  next
    case False
    let ?s' = "s\<lparr>w_pc := W_wait, files_acc := [], m_pc := M_select\<rparr>"
    have wi: "w_pc s = W_idle" using J m by (simp add: phase_ok_def)
    have "step net ch MainStep s = Some ?s'"
      using np m False by (simp add: step_def main_step_def)
    moreover have "work_left ch ?s' < work_left ch s"
      using m wi by (simp add: work_left_def)
    ultimately show ?thesis by blast
  qed
qed

lemma progress:
  assumes S: "inv_struct ch s" and D: "inv_data net ch s" and n: "\<not> returned s"
  shows "\<exists>a s'. step net ch a s = Some s' \<and> work_left ch s' < work_left ch s"
proof -
  note J = S[unfolded inv_struct_def]
  have np: "\<not> panicked s" using J by simp
  show ?thesis
  proof (cases "m_pc s")
    case M_start
    let ?s' = "s\<lparr>m_pc := (if length (Pages ch) = 0 then M_done (Some [], None) else M_launch 0)\<rparr>"
    have "step net ch MainStep s = Some ?s'"
      using np M_start by (simp add: step_def main_step_def)
    moreover have "work_left ch ?s' < work_left ch s"
      using M_start by (simp add: work_left_def)
    ultimately show ?thesis by blast
  next
    case (M_launch i)
    then show ?thesis by (rule launch_progress[OF S D])
  next
    case M_select
    have wn: "w_pc s \<noteq> W_idle" using J M_select by (simp add: phase_ok_def)
    show ?thesis
    proof (cases "errChan s")
      case (Some e)
      let ?s' = "s\<lparr>errChan := None, downloadErr := Some e, m_pc := M_drain\<rparr>"
      have "step net ch SelectErr s = Some ?s'"
        using np M_select Some by (simp add: step_def select_err_def)
      moreover have "work_left ch ?s' < work_left ch s"
        using M_select by (simp add: work_left_def)
      ultimately show ?thesis by blast
    next
      case None
      show ?thesis
      proof (cases "fileChan s")
        case (Cons f rest)
        let ?s' = "s\<lparr>fileChan := rest, files_acc := files_acc s @ [f]\<rparr>"
        have "step net ch SelectFile s = Some ?s'"
          using np M_select Cons by (simp add: step_def select_file_def)
        moreover have "work_left ch ?s' < work_left ch s"
          using Cons by (simp add: work_left_def)
        ultimately show ?thesis by blast
      next
        case Nil
        show ?thesis
        proof (cases "done_closed s")
          case True
          let ?s' = "s\<lparr>m_pc := M_drain\<rparr>"
          have "step net ch SelectDone s = Some ?s'"
            using np M_select True by (simp add: step_def select_done_def)
          moreover have "work_left ch ?s' < work_left ch s"
            using M_select by (simp add: work_left_def)
          ultimately show ?thesis by blast
        next
          case False
          then have "w_pc s \<noteq> W_gone" using J by (auto simp: waiter_ok_def)
          then show ?thesis using waiter_progress[OF S D wn] by simp
        qed
      qed
    qed
  next
    case M_drain
    have wn: "w_pc s \<noteq> W_idle" using J M_drain by (simp add: phase_ok_def)
    show ?thesis
    proof (cases "fileChan s")
      case (Cons f rest)
      let ?s' = "s\<lparr>fileChan := rest, files_acc := files_acc s @ [f]\<rparr>"
      have "step net ch MainStep s = Some ?s'"
        using np M_drain Cons by (simp add: step_def main_step_def)
      moreover have "work_left ch ?s' < work_left ch s"
        using Cons by (simp add: work_left_def)
      ultimately show ?thesis by blast
    next
      case Nil
      show ?thesis
      proof (cases "fileChan_closed s")
        case True
        let ?s' = "s\<lparr>m_pc := M_return\<rparr>"
        have "step net ch MainStep s = Some ?s'"
          using np M_drain Nil True by (simp add: step_def main_step_def)
        moreover have "work_left ch ?s' < work_left ch s"
          using M_drain by (simp add: work_left_def)
        ultimately show ?thesis by blast
      next
        case False
        then have "w_pc s \<noteq> W_gone" using J by (auto simp: waiter_ok_def)
        then show ?thesis using waiter_progress[OF S D wn] by simp
      qed
    qed
  next
    case M_return
    let ?s' = "s\<lparr>m_pc := M_done (case downloadErr s of
                  Some err \<Rightarrow> (None, Some err)
                | None \<Rightarrow> (Some (sort_key Page (files_acc s)), None))\<rparr>"
    have "step net ch MainStep s = Some ?s'"
      using np M_return by (simp add: step_def main_step_def split: option.splits)
    moreover have "work_left ch ?s' < work_left ch s"
      using M_return by (simp add: work_left_def)
    ultimately show ?thesis by blast
  next
    case (M_done r)
    then show ?thesis using n by (simp add: returned_def)
  qed
qed

lemma eventually_returns:
  assumes "inv_struct ch s" and "inv_data net ch s"
  shows "\<exists>acts s'. run net ch acts s = Some s' \<and> returned s'"
  using assms
proof (induction "work_left ch s" arbitrary: s rule: less_induct)
  case less
  show ?case
  proof (cases "returned s")
    case True
    have "run net ch [] s = Some s" by simp
    then show ?thesis using True by blast
  next
    case False
    from progress[OF less.prems False] obtain a s1 where
      st: "step net ch a s = Some s1" and lt: "work_left ch s1 < work_left ch s" by blast
    have inv: "inv_struct ch s1 \<and> inv_data net ch s1"
      using inv_both_step[of "ch" s net a s1] less.prems st by simp
    from less.hyps[OF lt] inv obtain acts s' where
      r: "run net ch acts s1 = Some s'" and d: "returned s'" by blast
    have "run net ch (a # acts) s = Some s'" using st r by simp
    then show ?thesis using d by blast
  qed
qed

lemma FetchChapter_returns: "\<exists>acts r. FetchChapter net ch acts = Some r"
proof -
  from eventually_returns[OF inv_struct_init inv_data_init, where ch = "ch" and net = net]
  obtain acts s' where r: "run net ch acts (init ch) = Some s'" and d: "returned s'" by blast
  from d obtain res where "m_pc s' = M_done res" by (cases "m_pc s'") (simp_all add: returned_def)
  then have "FetchChapter net ch acts = Some res" using r by (simp add: FetchChapter_def)
  then show ?thesis by blast
qed

lemma reachable_returns:
  assumes "reachable net ch s"
  shows "\<exists>acts s'. run net ch acts s = Some s' \<and> returned s' \<and> reachable net ch s'"
proof -
  from eventually_returns[OF reachable_inv_struct[OF assms] reachable_inv_data[OF assms]]
  obtain acts s' where r: "run net ch acts s = Some s'" and d: "returned s'" by blast
  from assms obtain pre where p: "run net ch pre (init ch) = Some s" by (auto simp: reachable_def)
  have "run net ch (pre @ acts) (init ch) = Some s'" using p r by (simp add: run_append)
  then have "reachable net ch s'" by (auto simp: reachable_def)
  then show ?thesis using r d by blast
qed

section \<open>The downloader: what FetchChapter returns, and the bound on fetches\<close>

text \<open>
  C1. When every fetch succeeds, FetchChapter returns, and whatever the schedule (the
  order in which the fetches complete and the caller collects), it returns no error and
  exactly one file for each page, sorted by page: the page values of the list are the
  page numbers of the chapter in ascending order. For a chapter without pages it returns
  the empty list and no error.
\<close>

theorem FetchChapter_all_succeed:
  assumes "\<forall>idx < length (Pages ch). fetch_ok net ch idx"
  shows "(\<forall>acts r. FetchChapter net ch acts = Some r \<longrightarrow>
            (\<exists>fs. r = (Some fs, None) \<and> length fs = length (Pages ch) \<and>
                  map Page fs = sort (map (\<lambda>p. uint_of_int64 (Number p)) (Pages ch)) \<and>
                  mset fs = mset (map (fetched net ch) [0..<length (Pages ch)])))
       \<and> (\<exists>acts r. FetchChapter net ch acts = Some r)
       \<and> (Pages ch = [] \<longrightarrow> FetchChapter net ch [MainStep] = Some (Some [], None))"
proof (intro conjI allI impI)
  fix acts r
  assume "FetchChapter net ch acts = Some r"
  then obtain s where s: "reachable net ch s" "m_pc s = M_done r"
    using FetchChapter_reaches by blast
  from all_succeed_result[OF assms s] obtain fs where
    fs: "r = (Some fs, None)" "mset fs = mset (map (fetched net ch) [0..<length (Pages ch)])"
      "sorted (map Page fs)"
    by blast
  have "size (mset fs) = size (mset (map (fetched net ch) [0..<length (Pages ch)]))"
    using fs(2) by simp
  then have l: "length fs = length (Pages ch)" by simp
  have "image_mset Page (mset fs) = image_mset Page (mset (map (fetched net ch) [0..<length (Pages ch)]))"
    using fs(2) by simp
  then have "mset (map Page fs) = mset (map (\<lambda>idx. Page (fetched net ch idx)) [0..<length (Pages ch)])"
    by (simp add: multiset.map_comp comp_def)
  then have "mset (map Page fs) = mset (map (\<lambda>p. uint_of_int64 (Number p)) (Pages ch))"
    by (simp only: page_numbers)
  then have "sort (map (\<lambda>p. uint_of_int64 (Number p)) (Pages ch)) = map Page fs"
    using fs(3) by (intro properties_for_sort) simp_all
  then show "\<exists>fs. r = (Some fs, None) \<and> length fs = length (Pages ch) \<and>
                  map Page fs = sort (map (\<lambda>p. uint_of_int64 (Number p)) (Pages ch)) \<and>
                  mset fs = mset (map (fetched net ch) [0..<length (Pages ch)])"
    using fs l by simp
next
  show "\<exists>acts r. FetchChapter net ch acts = Some r" by (rule FetchChapter_returns)
next
  assume "Pages ch = []"
  then show "FetchChapter net ch [MainStep] = Some (Some [], None)"
    by (simp add: FetchChapter_def step_def main_step_def init_def)
qed

lemma all_fine_ok: "fetch_ok all_fine ch idx"
  by (simp add: fetch_ok_def fetch_result_def FetchFile_def all_fine_def Let_def)

theorem FetchChapter_all_succeed_witness:
  "fetch_ok all_fine two_pages 0 \<and> fetch_ok all_fine two_pages 1 \<and> length (Pages two_pages) = 2
   \<and> FetchChapter all_fine two_pages second_page_first
       = Some (Some [\<lparr>Data = ''u1'', Page = 1\<rparr>, \<lparr>Data = ''u2'', Page = 2\<rparr>], None)
   \<and> map Page [\<lparr>Data = ''u1'', Page = 1\<rparr>, \<lparr>Data = ''u2'', Page = 2\<rparr>]
       = sort (map (\<lambda>p. uint_of_int64 (Number p)) (Pages two_pages))"
proof -
  have h: "\<forall>idx < length (Pages two_pages). fetch_ok all_fine two_pages idx"
    by (simp add: all_fine_ok)
  have e: "FetchChapter all_fine two_pages second_page_first
       = Some (Some [\<lparr>Data = ''u1'', Page = 1\<rparr>, \<lparr>Data = ''u2'', Page = 2\<rparr>], None)"
    by code_simp
  from FetchChapter_all_succeed[OF h] e
  have "\<exists>fs. (Some [\<lparr>Data = ''u1'', Page = 1\<rparr>, \<lparr>Data = ''u2'', Page = 2\<rparr>], None) = (Some fs, None) \<and>
          length fs = length (Pages two_pages) \<and>
          map Page fs = sort (map (\<lambda>p. uint_of_int64 (Number p)) (Pages two_pages)) \<and>
          mset fs = mset (map (fetched all_fine two_pages) [0..<length (Pages two_pages)])"
    by blast
  then have "map Page [\<lparr>Data = ''u1'', Page = 1\<rparr>, \<lparr>Data = ''u2'', Page = 2\<rparr>]
       = sort (map (\<lambda>p. uint_of_int64 (Number p)) (Pages two_pages))"
    by auto
  then show ?thesis using e by (simp add: all_fine_ok two_pages_def)
qed

text \<open>
  C3. In every state FetchChapter can be in, the number of fetches in flight is at most
  the number of goroutines that hold a token of \<open>guard\<close>, which is the number of tokens in
  the channel and at most 5. A goroutine gives its token back on each of its paths (the
  fetch succeeded; it failed and the error was sent; it failed and the error was
  dropped): when FetchChapter has returned no token is left, and from every state it can
  be in, FetchChapter can run on to its return.
\<close>

theorem guard_bounds_fetches:
  assumes "reachable net ch s"
  shows "in_flight s \<le> slots_held s \<and> guard s = slots_held s \<and> guard s \<le> 5 \<and> in_flight s \<le> 5
       \<and> (returned s \<longrightarrow> guard s = 0)
       \<and> (\<exists>acts s'. run net ch acts s = Some s' \<and> returned s' \<and> guard s' = 0)"
proof -
  note S = reachable_inv_struct[OF assms]
  note J = S[unfolded inv_struct_def]
  have a: "in_flight s \<le> slots_held s"
    unfolding in_flight_def slots_held_def by (rule gsum_mono) (simp add: holding_def)
  have ret: "guard t = 0" if r: "reachable net ch t" and d: "returned t" for t
  proof (cases "length (Pages ch) = 0")
    case True
    then have "g_pc t = []" using reachable_inv_struct[OF r] by (simp add: inv_struct_def)
    then have "slots_held t = 0" by (simp add: slots_held_def gsum_def)
    then show ?thesis using reachable_inv_struct[OF r] by (simp add: inv_struct_def)
  next
    case False
    from d obtain res where m: "m_pc t = M_done res"
      by (cases "m_pc t") (simp_all add: returned_def)
    have "fileChan_closed t"
      using reachable_inv_data[OF r] m False by (simp add: inv_data_def result_ok_def)
    then show ?thesis using all_gone(2)[OF reachable_inv_struct[OF r]] by simp
  qed
  from reachable_returns[OF assms] obtain acts s' where
    r: "run net ch acts s = Some s'" "returned s'" "reachable net ch s'" by blast
  have e: "\<exists>acts s'. run net ch acts s = Some s' \<and> returned s' \<and> guard s' = 0"
    using r ret[of s'] by blast
  show ?thesis using a J ret[OF assms] e by auto
qed

theorem guard_bounds_fetches_witness:
  "reachable all_fine six_pages (the (run all_fine six_pages five_started (init six_pages)))
   \<and> map_option in_flight (run all_fine six_pages five_started (init six_pages)) = Some 5
   \<and> map_option guard (run all_fine six_pages five_started (init six_pages)) = Some 5
   \<and> run all_fine six_pages (five_started @ [MainStep]) (init six_pages) = None
   \<and> in_flight (the (run all_fine six_pages five_started (init six_pages))) \<le> 5"
proof -
  let ?s = "the (run all_fine six_pages five_started (init six_pages))"
  have n: "run all_fine six_pages five_started (init six_pages) \<noteq> None" by code_simp
  then have r: "reachable all_fine six_pages ?s" by (auto simp: reachable_def)
  have a: "map_option in_flight (run all_fine six_pages five_started (init six_pages)) = Some 5"
    by code_simp
  have b: "map_option guard (run all_fine six_pages five_started (init six_pages)) = Some 5"
    by code_simp
  have c: "run all_fine six_pages (five_started @ [MainStep]) (init six_pages) = None"
    by code_simp
  show ?thesis using guard_bounds_fetches[OF r] r a b c by blast
qed

section \<open>The downloader: the progress callback\<close>























text \<open>
  C10, as the code has it. FetchChapter does not serialise the calls of onprogress: each
  goroutine calls it itself, without a lock. The invocations that run at the same time
  are bounded only by the tokens of \<open>guard\<close>: at most 5.
\<close>

theorem onprogress_concurrent_calls:
  assumes "reachable net ch s"
  shows "in_callback s \<le> slots_held s \<and> in_callback s \<le> guard s \<and> in_callback s \<le> 5"
proof -
  note J = reachable_inv_struct[OF assms, unfolded inv_struct_def]
  have "in_callback s \<le> slots_held s"
    unfolding in_callback_def slots_held_def by (rule gsum_mono) (simp add: holding_def)
  then show ?thesis using J by simp
qed

theorem onprogress_concurrent_calls_witness:
  "reachable all_fine six_pages
     (the (run all_fine six_pages
        (five_started @ concat (map (\<lambda>idx. [GoStep idx, GoStep idx, GoStep idx]) [0, 1, 2, 3, 4]))
        (init six_pages)))
   \<and> map_option in_callback (run all_fine six_pages
        (five_started @ concat (map (\<lambda>idx. [GoStep idx, GoStep idx, GoStep idx]) [0, 1, 2, 3, 4]))
        (init six_pages)) = Some 5
   \<and> in_callback (the (run all_fine six_pages
        (five_started @ concat (map (\<lambda>idx. [GoStep idx, GoStep idx, GoStep idx]) [0, 1, 2, 3, 4]))
        (init six_pages))) \<le> 5"
proof -
  let ?r = "run all_fine six_pages
        (five_started @ concat (map (\<lambda>idx. [GoStep idx, GoStep idx, GoStep idx]) [0, 1, 2, 3, 4]))
        (init six_pages)"
  have n: "?r \<noteq> None" by code_simp
  then have r: "reachable all_fine six_pages (the ?r)" by (auto simp: reachable_def)
  have c: "map_option in_callback ?r = Some 5" by code_simp
  show ?thesis using onprogress_concurrent_calls[OF r] r c by blast
qed

text \<open>
  The claim as stated fails: with two pages, both goroutines can be inside onprogress at
  the same time.
\<close>

theorem onprogress_concurrent_calls_counterexample:
  "map_option g_pc (run all_fine two_pages both_in_callback (init two_pages))
     = Some [G_callback, G_callback]
   \<and> map_option in_callback (run all_fine two_pages both_in_callback (init two_pages)) = Some 2"
  by code_simp

end
